theory Spec2Isabelle
  imports Main "HOL-Library.Word"
begin

unbundle bit_operations_syntax

section \<open>The buffer cache of kernel/bio.c\<close>

text \<open>
  The cache is a fixed pool of buffers (\<^verbatim>\<open>bcache.buf[NBUF]\<close>) indexed by
  \<^verbatim>\<open>NBUCKET = 13\<close> hash buckets. Every bucket is a singly linked, null-terminated
  chain that starts at a dummy head (\<^verbatim>\<open>bcache.buckets[i]\<close>) and runs through the
  \<^verbatim>\<open>next\<close> pointers. The embedding names a pool buffer by its index in
  \<^verbatim>\<open>bcache.buf\<close> and represents the chain of bucket \<open>i\<close> by the list of buffers
  met when following \<^verbatim>\<open>bcache.buckets[i].next\<close> to the null pointer.
  C's \<^verbatim>\<open>uint\<close> is a 32-bit word.
\<close>

type_synonym uint = "32 word"
type_synonym pid = nat

definition NBUCKET :: nat where
  "NBUCKET = 13"

text \<open>\<^verbatim>\<open>#define BUFMAP_HASH(dev, blockno) ((((dev)<<27)|(blockno))%NBUCKET)\<close>\<close>

definition BUFMAP_HASH :: "uint \<Rightarrow> uint \<Rightarrow> uint" where
  "BUFMAP_HASH d bn = (push_bit 27 d OR bn) mod 13"

text \<open>
  Modelled from the spec: \<^verbatim>\<open>struct buf\<close> (buf.h is not part of the sources read here).
  The fields are those bio.c uses: the validity flag, the key \<open>dev\<close>/\<open>blockno\<close>, the
  blocking lock, the reference count and the timestamp (both \<^verbatim>\<open>uint\<close>, as the
  \<^verbatim>\<open>ticks\<close> counter assigned to the timestamp is), and the block content.
  The blocking lock is \<open>None\<close> when free and \<open>Some p\<close> when process \<open>p\<close> holds it.
\<close>

record buf =
  valid :: bool
  dev :: uint
  blockno :: uint
  lock :: "pid option"
  refcnt :: uint
  timestamp :: uint
  data :: "8 word list"

text \<open>
  Busy-wait locks are not part of the state between calls; what a call does with them is
  recorded as a log of events, in program order.
\<close>

datatype spinlock = BcacheLock | BucketLock nat

datatype lock_ev = Acquire spinlock | Release spinlock | AcquireSleep nat | ReleaseSleep nat

record bcache =
  bufs :: "buf list"
  buckets :: "nat list list"
  ticks :: uint
  disk :: "uint \<times> uint \<Rightarrow> 8 word list"
  trace :: "lock_ev list"

text \<open>A pointer to a \<^verbatim>\<open>struct buf\<close> is a bucket's dummy head or a pool buffer.\<close>

datatype bufptr = Head nat | Slot nat

text \<open>
  \<^verbatim>\<open>p->timestamp\<close>. The dummy heads live in the zero-initialised global \<^verbatim>\<open>bcache\<close>
  and no statement of bio.c assigns their timestamp, so it reads as 0.
\<close>

fun ptr_timestamp :: "buf list \<Rightarrow> bufptr \<Rightarrow> uint" where
  "ptr_timestamp bs (Head i) = 0"
| "ptr_timestamp bs (Slot s) = timestamp (bs ! s)"

definition acquire :: "spinlock \<Rightarrow> bcache \<Rightarrow> bcache" where
  "acquire l st = st\<lparr>trace := trace st @ [Acquire l]\<rparr>"

definition release :: "spinlock \<Rightarrow> bcache \<Rightarrow> bcache" where
  "release l st = st\<lparr>trace := trace st @ [Release l]\<rparr>"

text \<open>The locks held after a log of events, most recently acquired first.\<close>

fun held_step :: "spinlock list \<Rightarrow> lock_ev \<Rightarrow> spinlock list" where
  "held_step hs (Acquire l) = l # hs"
| "held_step hs (Release l) = remove1 l hs"
| "held_step hs (AcquireSleep b) = hs"
| "held_step hs (ReleaseSleep b) = hs"

definition held :: "lock_ev list \<Rightarrow> spinlock list" where
  "held es = foldl held_step [] es"

fun is_bucket_lock :: "spinlock \<Rightarrow> bool" where
  "is_bucket_lock (BucketLock i) = True"
| "is_bucket_lock BcacheLock = False"

definition bucket_locks_held :: "lock_ev list \<Rightarrow> spinlock list" where
  "bucket_locks_held es = filter is_bucket_lock (held es)"

subsection \<open>Collaborators\<close>

text \<open>
  Modelled from the spec: the blocking lock (sleeplock.c is not part of the sources read
  here). \<open>holdingsleep\<close> is the "is held by the current caller" test; \<open>releasesleep\<close>
  frees the lock.
\<close>

definition holdingsleep :: "pid \<Rightarrow> buf \<Rightarrow> bool" where
  "holdingsleep p b = (lock b = Some p)"

definition releasesleep :: "nat \<Rightarrow> bcache \<Rightarrow> bcache" where
  "releasesleep b st =
     st\<lparr>bufs := (bufs st)[b := (bufs st ! b)\<lparr>lock := None\<rparr>],
        trace := trace st @ [ReleaseSleep b]\<rparr>"

text \<open>
  Modelled from the spec: \<open>disk_transfer(slot, is_write)\<close> (virtio_disk.c is not part of
  the sources read here): it writes the slot's content to the disk block of the slot's
  key, or reads that block into the slot's content.
\<close>

definition virtio_disk_rw :: "nat \<Rightarrow> bool \<Rightarrow> bcache \<Rightarrow> bcache" where
  "virtio_disk_rw b is_write st =
     (let x = bufs st ! b in
      if is_write then st\<lparr>disk := (disk st)((dev x, blockno x) := data x)\<rparr>
      else st\<lparr>bufs := (bufs st)[b := x\<lparr>data := disk st (dev x, blockno x)\<rparr>]\<rparr>)"

text \<open>
  What a call that hands out a buffer can do: halt the kernel (\<^verbatim>\<open>panic\<close>), return the
  buffer, or sleep in \<^verbatim>\<open>acquiresleep\<close> because another holder has the buffer's
  blocking lock (the bookkeeping done before is then already in the state).
\<close>

datatype outcome = Panic string bcache | Blocked bcache nat | Returned bcache nat

fun state_of :: "outcome \<Rightarrow> bcache" where
  "state_of (Panic m st) = st"
| "state_of (Blocked st b) = st"
| "state_of (Returned st b) = st"

text \<open>The buffer a call returns or sleeps on.\<close>

fun buf_of :: "outcome \<Rightarrow> nat option" where
  "buf_of (Panic m st) = None"
| "buf_of (Blocked st b) = Some b"
| "buf_of (Returned st b) = Some b"

fun returned :: "outcome \<Rightarrow> bool" where
  "returned (Returned st b) = True"
| "returned (Blocked st b) = False"
| "returned (Panic m st) = False"

text \<open>
  Modelled from the spec: \<^verbatim>\<open>acquiresleep(&b->lock); return b;\<close> The caller gets the
  buffer when its blocking lock is free and sleeps otherwise.
\<close>

definition acquiresleep :: "pid \<Rightarrow> nat \<Rightarrow> bcache \<Rightarrow> outcome" where
  "acquiresleep p b st =
     (case lock (bufs st ! b) of
        None \<Rightarrow> Returned (st\<lparr>bufs := (bufs st)[b := (bufs st ! b)\<lparr>lock := Some p\<rparr>],
                             trace := trace st @ [AcquireSleep b]\<rparr>) b
      | Some q \<Rightarrow> Blocked st b)"

subsection \<open>binit\<close>

text \<open>
  \<^verbatim>\<open>binit\<close> empties every chain and pushes the buffers \<open>0, 1, ..., NBUF - 1\<close> one
  after the other on the front of chain 0, with timestamp and reference count 0. The
  other fields keep the zero of the global's static initialisation. \<open>NBUF\<close> (param.h) is
  a parameter.
\<close>

definition buf0 :: buf where
  "buf0 = \<lparr>valid = False, dev = 0, blockno = 0, lock = None, refcnt = 0, timestamp = 0,
           data = []\<rparr>"

definition binit :: "nat \<Rightarrow> uint \<Rightarrow> bcache" where
  "binit nbuf t =
     \<lparr>bufs = replicate nbuf buf0,
      buckets = rev [0..<nbuf] # replicate (NBUCKET - 1) [],
      ticks = t,
      disk = (\<lambda>k. []),
      trace = []\<rparr>"

subsection \<open>bget\<close>

text \<open>
  \<^verbatim>\<open>for(b = bcache.buckets[key].next; b; b = b->next)
    if(b->dev == dev && b->blockno == blockno)\<close>: the first buffer of the chain with the key.
\<close>

definition lookup :: "buf list \<Rightarrow> nat list \<Rightarrow> uint \<Rightarrow> uint \<Rightarrow> nat option" where
  "lookup bs chain d bn = find (\<lambda>b. dev (bs ! b) = d \<and> blockno (bs ! b) = bn) chain"

text \<open>\<^verbatim>\<open>b->refcnt++; b->timestamp = ticks;\<close>\<close>

definition touch :: "nat \<Rightarrow> bcache \<Rightarrow> bcache" where
  "touch b st =
     st\<lparr>bufs := (bufs st)[b := (bufs st ! b)\<lparr>refcnt := refcnt (bufs st ! b) + 1,
                                            timestamp := ticks st\<rparr>]\<rparr>"

text \<open>
  Lines 76 to 90, the pass under the target bucket's lock alone: \<open>Inr\<close> is the hit, with
  its outcome; \<open>Inl\<close> is the miss, with the state in which line 91 starts.
\<close>

definition bget_fast :: "pid \<Rightarrow> uint \<Rightarrow> uint \<Rightarrow> bcache \<Rightarrow> bcache + outcome" where
  "bget_fast p d bn st =
     (let key = BUFMAP_HASH d bn;
          st1 = acquire (BucketLock (unat key)) st
      in case lookup (bufs st1) (buckets st1 ! unat key) d bn of
           Some b \<Rightarrow> Inr (acquiresleep p b (release (BucketLock (unat key)) (touch b st1)))
         | None \<Rightarrow> Inl (release (BucketLock (unat key)) st1))"

text \<open>
  The inner loop of the scan (lines 113 to 118) over one chain. \<open>prev\<close> is the loop
  variable \<^verbatim>\<open>b\<close>, the chain argument is what follows it, and the pair
  \<open>(before_least, newfound)\<close> is threaded through. \<open>before_least\<close> is kept together with
  \<^verbatim>\<open>before_least->next\<close>, the buffer it stands before (no \<^verbatim>\<open>next\<close> pointer changes
  between the scan and line 133, where the code reads it). The comparison is the one
  the code makes: the candidate's timestamp against \<^verbatim>\<open>before_least->timestamp\<close>.
\<close>

fun scan_chain ::
  "buf list \<Rightarrow> bufptr \<Rightarrow> nat list \<Rightarrow> (bufptr \<times> nat) option \<times> bool \<Rightarrow> (bufptr \<times> nat) option \<times> bool"
where
  "scan_chain bs prev [] acc = acc"
| "scan_chain bs prev (n # ns) (before_least, newfound) =
     (if refcnt (bs ! n) = 0 \<and>
         (case before_least of None \<Rightarrow> True
          | Some (bl, x) \<Rightarrow> timestamp (bs ! n) < ptr_timestamp bs bl)
      then scan_chain bs (Slot n) ns (Some (prev, n), True)
      else scan_chain bs (Slot n) ns (before_least, newfound))"

text \<open>
  The outer loop (lines 110 to 128) over the bucket indices still to visit.
  \<open>holding_bucket\<close> is a \<^verbatim>\<open>uint\<close> that starts as \<open>-1\<close>.
\<close>

fun scan_buckets ::
  "nat list \<Rightarrow> (bufptr \<times> nat) option \<Rightarrow> uint \<Rightarrow> bcache \<Rightarrow> (bufptr \<times> nat) option \<times> uint \<times> bcache"
where
  "scan_buckets [] before_least holding_bucket st = (before_least, holding_bucket, st)"
| "scan_buckets (i # rest) before_least holding_bucket st =
     (let st1 = acquire (BucketLock i) st;
          (before_least', newfound) =
             scan_chain (bufs st1) (Head i) (buckets st1 ! i) (before_least, False)
      in if \<not> newfound then
           scan_buckets rest before_least' holding_bucket (release (BucketLock i) st1)
         else
           scan_buckets rest before_least' (of_nat i)
             (if holding_bucket \<noteq> - 1 then release (BucketLock (unat holding_bucket)) st1
              else st1))"

text \<open>
  Lines 137 to 141: unlink \<open>b\<close> from the chain it is in and push it on the front of the
  target chain, changing locks in between.
\<close>

definition relink :: "nat \<Rightarrow> nat \<Rightarrow> nat \<Rightarrow> bcache \<Rightarrow> bcache" where
  "relink b holding key st =
     (let st1 = st\<lparr>buckets := (buckets st)[holding := remove1 b (buckets st ! holding)]\<rparr>;
          st2 = acquire (BucketLock key) (release (BucketLock holding) st1)
      in st2\<lparr>buckets := (buckets st2)[key := b # (buckets st2 ! key)]\<rparr>)"

text \<open>Lines 143 to 147.\<close>

definition claim :: "nat \<Rightarrow> uint \<Rightarrow> uint \<Rightarrow> bcache \<Rightarrow> bcache" where
  "claim b d bn st =
     st\<lparr>bufs := (bufs st)[b := (bufs st ! b)\<lparr>dev := d, blockno := bn, valid := False,
                                            refcnt := 1, timestamp := ticks st\<rparr>]\<rparr>"

text \<open>Lines 91 to 151, the pass under the cache-wide lock.\<close>

definition bget_slow :: "pid \<Rightarrow> uint \<Rightarrow> uint \<Rightarrow> bcache \<Rightarrow> outcome" where
  "bget_slow p d bn st =
     (let key = BUFMAP_HASH d bn;
          st1 = acquire BcacheLock st
      in case lookup (bufs st1) (buckets st1 ! unat key) d bn of
           Some b \<Rightarrow>
             acquiresleep p b
               (release BcacheLock (release (BucketLock (unat key))
                  (touch b (acquire (BucketLock (unat key)) st1))))
         | None \<Rightarrow>
             (case scan_buckets [0..<NBUCKET] None (- 1) st1 of
                (None, holding_bucket, st2) \<Rightarrow>
                  Panic ''bget: no buffers'' (release BcacheLock st2)
              | (Some (before_least, b), holding_bucket, st2) \<Rightarrow>
                  (let st3 = (if holding_bucket \<noteq> key
                              then relink b (unat holding_bucket) (unat key) st2 else st2)
                   in acquiresleep p b
                        (release BcacheLock (release (BucketLock (unat key))
                           (claim b d bn st3))))))"

definition bget :: "pid \<Rightarrow> uint \<Rightarrow> uint \<Rightarrow> bcache \<Rightarrow> outcome" where
  "bget p d bn st =
     (case bget_fast p d bn st of Inr r \<Rightarrow> r | Inl st1 \<Rightarrow> bget_slow p d bn st1)"

subsection \<open>bread, bwrite, brelse, bpin, bunpin\<close>

text \<open>Lines 208 to 212, what \<^verbatim>\<open>bread\<close> does once \<^verbatim>\<open>bget\<close> has returned \<open>b\<close>.\<close>

definition bread_fill :: "nat \<Rightarrow> bcache \<Rightarrow> bcache" where
  "bread_fill b st =
     (if \<not> valid (bufs st ! b)
      then (let st1 = virtio_disk_rw b False st
            in st1\<lparr>bufs := (bufs st1)[b := (bufs st1 ! b)\<lparr>valid := True\<rparr>]\<rparr>)
      else st)"

definition bread :: "pid \<Rightarrow> uint \<Rightarrow> uint \<Rightarrow> bcache \<Rightarrow> outcome" where
  "bread p d bn st =
     (case bget p d bn st of
        Returned st1 b \<Rightarrow> Returned (bread_fill b st1) b
      | r \<Rightarrow> r)"

definition bwrite :: "pid \<Rightarrow> nat \<Rightarrow> bcache \<Rightarrow> string + bcache" where
  "bwrite p b st =
     (if \<not> holdingsleep p (bufs st ! b) then Inl ''bwrite''
      else Inr (virtio_disk_rw b True st))"

definition brelse :: "pid \<Rightarrow> nat \<Rightarrow> bcache \<Rightarrow> string + bcache" where
  "brelse p b st =
     (if \<not> holdingsleep p (bufs st ! b) then Inl ''brelse''
      else
        (let key = BUFMAP_HASH (dev (bufs st ! b)) (blockno (bufs st ! b));
             st1 = releasesleep b st;
             st2 = acquire (BucketLock (unat key)) st1;
             st3 = st2\<lparr>bufs := (bufs st2)[b := (bufs st2 ! b)\<lparr>refcnt := refcnt (bufs st2 ! b) - 1\<rparr>]\<rparr>;
             st4 = (if refcnt (bufs st3 ! b) = 0
                    then st3\<lparr>bufs := (bufs st3)[b := (bufs st3 ! b)\<lparr>timestamp := ticks st3\<rparr>]\<rparr>
                    else st3)
         in Inr (release (BucketLock (unat key)) st4)))"

definition bpin :: "nat \<Rightarrow> bcache \<Rightarrow> bcache" where
  "bpin b st =
     (let key = BUFMAP_HASH (dev (bufs st ! b)) (blockno (bufs st ! b));
          st1 = acquire (BucketLock (unat key)) st;
          st2 = st1\<lparr>bufs := (bufs st1)[b := (bufs st1 ! b)\<lparr>refcnt := refcnt (bufs st1 ! b) + 1\<rparr>]\<rparr>
      in release (BucketLock (unat key)) st2)"

definition bunpin :: "nat \<Rightarrow> bcache \<Rightarrow> bcache" where
  "bunpin b st =
     (let key = BUFMAP_HASH (dev (bufs st ! b)) (blockno (bufs st ! b));
          st1 = acquire (BucketLock (unat key)) st;
          st2 = st1\<lparr>bufs := (bufs st1)[b := (bufs st1 ! b)\<lparr>refcnt := refcnt (bufs st1 ! b) - 1\<rparr>]\<rparr>
      in release (BucketLock (unat key)) st2)"

subsection \<open>Well-formed chains\<close>

text \<open>
  The chains are well formed when there are \<open>NBUCKET\<close> of them, no chain meets a buffer
  twice, every chain element is a buffer of the pool, and no buffer is on two chains. This
  is what makes the lists a faithful picture of the linked structure.
\<close>

definition chains_ok :: "bcache \<Rightarrow> bool" where
  "chains_ok st \<longleftrightarrow>
     length (buckets st) = NBUCKET \<and>
     (\<forall>i<NBUCKET. distinct (buckets st ! i) \<and>
        (\<forall>b \<in> set (buckets st ! i). b < length (bufs st) \<and>
           (\<forall>j<NBUCKET. b \<in> set (buckets st ! j) \<longrightarrow> j = i)))"

text \<open>Every buffer of the pool is on a chain, and on the chain its key hashes to.\<close>

definition covered :: "bcache \<Rightarrow> bool" where
  "covered st \<longleftrightarrow> (\<forall>b<length (bufs st). \<exists>i<NBUCKET. b \<in> set (buckets st ! i))"

definition hashed_ok :: "bcache \<Rightarrow> bool" where
  "hashed_ok st \<longleftrightarrow>
     (\<forall>i<NBUCKET. \<forall>b \<in> set (buckets st ! i).
        unat (BUFMAP_HASH (dev (bufs st ! b)) (blockno (bufs st ! b))) = i)"

text \<open>The buffers of the pool that carry a key.\<close>

definition holders :: "bcache \<Rightarrow> uint \<Rightarrow> uint \<Rightarrow> nat list" where
  "holders st d bn =
     filter (\<lambda>b. dev (bufs st ! b) = d \<and> blockno (bufs st ! b) = bn) [0..<length (bufs st)]"

subsection \<open>Runs\<close>

text \<open>
  The calls the cache can receive, each taken as one step. A lookup is either taken
  whole (\<open>Bread\<close>) or as its two passes (\<open>Fast\<close>, lines 76 to 90, and \<open>Slow\<close>, lines 91 to
  151), so that other calls and other lookups can come between the pass that misses under
  the bucket lock and the pass under the cache-wide lock. \<open>Wakeup\<close> is a sleeper getting
  the blocking lock it waited for. \<open>Tick\<close> is the clock advancing. The pass \<open>Slow\<close> and
  \<open>Wakeup\<close> are allowed at any point, so the runs include those in which other calls
  come between the two passes of a lookup. Each pass is one step: interleavings inside a
  pass are not part of a run.
\<close>

datatype op =
    Tick
  | Bread pid uint uint
  | Fast pid uint uint
  | Slow pid uint uint
  | Wakeup pid nat
  | Bwrite pid nat
  | Brelse pid nat
  | Bpin nat
  | Bunpin nat

text \<open>What \<^verbatim>\<open>bread\<close> does with the outcome of the lookup; \<open>Inl\<close> is a panic.\<close>

fun resume :: "outcome \<Rightarrow> string + bcache" where
  "resume (Panic m st) = Inl m"
| "resume (Blocked st b) = Inr st"
| "resume (Returned st b) = Inr (bread_fill b st)"

fun step :: "op \<Rightarrow> bcache \<Rightarrow> string + bcache" where
  "step Tick st = Inr (st\<lparr>ticks := ticks st + 1\<rparr>)"
| "step (Bread p d bn) st = resume (bget p d bn st)"
| "step (Fast p d bn) st = (case bget_fast p d bn st of Inl st1 \<Rightarrow> Inr st1 | Inr r \<Rightarrow> resume r)"
| "step (Slow p d bn) st = resume (bget_slow p d bn st)"
| "step (Wakeup p b) st = resume (acquiresleep p b st)"
| "step (Bwrite p b) st = bwrite p b st"
| "step (Brelse p b) st = brelse p b st"
| "step (Bpin b) st = Inr (bpin b st)"
| "step (Bunpin b) st = Inr (bunpin b st)"

text \<open>A run stops at the first panic.\<close>

fun run :: "op list \<Rightarrow> bcache \<Rightarrow> bcache" where
  "run [] st = st"
| "run (x # xs) st = (case step x st of Inl m \<Rightarrow> st | Inr st' \<Rightarrow> run xs st')"

text \<open>A call names a buffer by a pointer into the pool of \<open>n\<close> buffers.\<close>

fun op_ok :: "nat \<Rightarrow> op \<Rightarrow> bool" where
  "op_ok n (Wakeup p b) = (b < n)"
| "op_ok n (Bwrite p b) = (b < n)"
| "op_ok n (Brelse p b) = (b < n)"
| "op_ok n (Bpin b) = (b < n)"
| "op_ok n (Bunpin b) = (b < n)"
| "op_ok n x = True"

subsection \<open>Lock discipline of a log\<close>

text \<open>
  The largest number of bucket locks held at one time while the events of a log happen,
  starting with the locks \<open>hs\<close> held.
\<close>

fun max_bucket_locks :: "spinlock list \<Rightarrow> lock_ev list \<Rightarrow> nat" where
  "max_bucket_locks hs [] = length (filter is_bucket_lock hs)"
| "max_bucket_locks hs (e # es) =
     max (length (filter is_bucket_lock hs)) (max_bucket_locks (held_step hs e) es)"

text \<open>
  Every acquisition of a bucket lock in the log happens while at most one bucket lock is
  held, and that one belongs to a bucket of smaller index.
\<close>

fun below :: "nat \<Rightarrow> spinlock \<Rightarrow> bool" where
  "below i (BucketLock j) = (j < i)"
| "below i BcacheLock = True"

fun acquire_ok :: "spinlock list \<Rightarrow> lock_ev \<Rightarrow> bool" where
  "acquire_ok hs (Acquire (BucketLock i)) =
     (length (filter is_bucket_lock hs) \<le> 1 \<and> list_all (below i) hs)"
| "acquire_ok hs e = True"

fun ascending_acquires :: "spinlock list \<Rightarrow> lock_ev list \<Rightarrow> bool" where
  "ascending_acquires hs [] = True"
| "ascending_acquires hs (e # es) = (acquire_ok hs e \<and> ascending_acquires (held_step hs e) es)"

text \<open>The buckets whose locks a log acquires, in the order of acquisition.\<close>

fun acquired_buckets :: "lock_ev list \<Rightarrow> nat list" where
  "acquired_buckets [] = []"
| "acquired_buckets (Acquire (BucketLock i) # es) = i # acquired_buckets es"
| "acquired_buckets (e # es) = acquired_buckets es"

text \<open>
  The locks the scan holds between two turns of its outer loop, as a function of
  \<open>holding_bucket\<close>, and the condition on \<open>holding_bucket\<close> before the buckets \<open>is\<close> are
  visited.
\<close>

definition scan_held :: "uint \<Rightarrow> spinlock list" where
  "scan_held hb = (if hb = - 1 then [BcacheLock] else [BucketLock (unat hb), BcacheLock])"

definition hb_ok :: "uint \<Rightarrow> nat list \<Rightarrow> bool" where
  "hb_ok hb is \<longleftrightarrow> hb = - 1 \<or> (\<exists>h<NBUCKET. hb = of_nat h \<and> (\<forall>i \<in> set is. h < i))"

subsection \<open>The invariant of the cache\<close>

text \<open>The keys of the pool's buffers, in pool order.\<close>

definition keys :: "bcache \<Rightarrow> (uint \<times> uint) list" where
  "keys st = map (\<lambda>x. (dev x, blockno x)) (bufs st)"

text \<open>No key other than the key \<open>(0, 0)\<close> of a fresh buffer is on two buffers.\<close>

definition unique_keys :: "bcache \<Rightarrow> bool" where
  "unique_keys st \<longleftrightarrow>
     (\<forall>b1<length (bufs st). \<forall>b2<length (bufs st).
        keys st ! b1 = keys st ! b2 \<and> keys st ! b1 \<noteq> (0, 0) \<longrightarrow> b1 = b2)"

definition cache_inv :: "bcache \<Rightarrow> bool" where
  "cache_inv st \<longleftrightarrow> chains_ok st \<and> covered st \<and> hashed_ok st \<and> unique_keys st"

section \<open>Basic facts\<close>

lemma acquire_simps [simp]:
  "bufs (acquire l st) = bufs st" "buckets (acquire l st) = buckets st"
  "ticks (acquire l st) = ticks st" "disk (acquire l st) = disk st"
  "trace (acquire l st) = trace st @ [Acquire l]"
  by (simp_all add: acquire_def)

lemma release_simps [simp]:
  "bufs (release l st) = bufs st" "buckets (release l st) = buckets st"
  "ticks (release l st) = ticks st" "disk (release l st) = disk st"
  "trace (release l st) = trace st @ [Release l]"
  by (simp_all add: release_def)

subsection \<open>The scan\<close>

lemma scan_chain_Some:
  "scan_chain bs prev ns (bl, nf) = (Some (pr, c), nf') \<Longrightarrow>
     (bl = Some (pr, c) \<and> nf' = nf) \<or> (c \<in> set ns \<and> refcnt (bs ! c) = 0 \<and> nf')"
  by (induction ns arbitrary: prev bl nf) (auto split: if_splits)

lemma scan_chain_None:
  "scan_chain bs prev ns (bl, nf) = (None, nf') \<Longrightarrow>
     bl = None \<and> nf' = nf \<and> (\<forall>n \<in> set ns. refcnt (bs ! n) \<noteq> 0)"
  by (induction ns arbitrary: prev bl nf) (auto split: if_splits option.splits)

lemma scan_chain_mono:
  "scan_chain bs prev ns (bl, nf) = (bl', nf') \<Longrightarrow>
     (nf \<longrightarrow> nf') \<and> (\<not> nf' \<longrightarrow> bl' = bl)"
  by (induction ns arbitrary: prev bl nf) (auto split: if_splits)

lemma scan_chain_found:
  "scan_chain bs prev ns (bl, False) = (bl', True) \<Longrightarrow>
     \<exists>pr c. bl' = Some (pr, c) \<and> c \<in> set ns \<and> refcnt (bs ! c) = 0"
proof -
  assume a: "scan_chain bs prev ns (bl, False) = (bl', True)"
  show ?thesis
  proof (cases bl')
    case None
    with a show ?thesis by (auto dest: scan_chain_None)
  next
    case (Some x)
    obtain pr c where "x = (pr, c)" by (cases x)
    with a Some show ?thesis by (auto dest: scan_chain_Some)
  qed
qed

text \<open>One turn of the outer loop, with the \<open>let\<close> unfolded.\<close>

lemma scan_buckets_Cons:
  "scan_buckets (i # rest) bl hb st =
     (case scan_chain (bufs st) (Head i) (buckets st ! i) (bl, False) of
        (bl', nf) \<Rightarrow>
          if nf then scan_buckets rest bl' (of_nat i)
                       (if hb \<noteq> - 1 then release (BucketLock (unat hb)) (acquire (BucketLock i) st)
                        else acquire (BucketLock i) st)
          else scan_buckets rest bl' hb (release (BucketLock i) (acquire (BucketLock i) st)))"
  by (simp add: Let_def split: prod.splits)

lemma scan_buckets_frame:
  "scan_buckets is bl hb st = (bl', hb', st') \<Longrightarrow>
     bufs st' = bufs st \<and> buckets st' = buckets st \<and> ticks st' = ticks st \<and> disk st' = disk st"
  by (induction "is" arbitrary: bl hb st) (auto simp: Let_def split: prod.splits if_splits)

declare scan_buckets.simps(2) [simp del]

lemma scan_buckets_Some:
  "scan_buckets is bl hb st = (Some (pr, c), hb', st') \<Longrightarrow>
     (bl = Some (pr, c) \<and> hb' = hb) \<or>
     (\<exists>i \<in> set is. c \<in> set (buckets st ! i) \<and> refcnt (bufs st ! c) = 0 \<and> hb' = of_nat i)"
proof (induction "is" arbitrary: bl hb st)
  case Nil
  then show ?case by simp
next
  case (Cons i rest)
  obtain bl1 nf where sc: "scan_chain (bufs st) (Head i) (buckets st ! i) (bl, False) = (bl1, nf)"
    by (cases "scan_chain (bufs st) (Head i) (buckets st ! i) (bl, False)")
  show ?case
  proof (cases nf)
    case False
    with sc have eq: "bl1 = bl" by (auto dest: scan_chain_mono)
    from Cons.prems sc False
    have "scan_buckets rest bl hb (release (BucketLock i) (acquire (BucketLock i) st))
            = (Some (pr, c), hb', st')"
      by (simp add: eq scan_buckets_Cons)
    from Cons.IH [OF this] show ?thesis by auto
  next
    case True
    define st2 where
      "st2 = (if hb \<noteq> - 1 then release (BucketLock (unat hb)) (acquire (BucketLock i) st)
              else acquire (BucketLock i) st)"
    have fr: "bufs st2 = bufs st" "buckets st2 = buckets st" by (simp_all add: st2_def)
    from Cons.prems sc True
    have "scan_buckets rest bl1 (of_nat i) st2 = (Some (pr, c), hb', st')"
      by (simp add: st2_def scan_buckets_Cons)
    from Cons.IH [OF this]
    have "(bl1 = Some (pr, c) \<and> hb' = of_nat i) \<or>
          (\<exists>j \<in> set rest. c \<in> set (buckets st ! j) \<and> refcnt (bufs st ! c) = 0 \<and> hb' = of_nat j)"
      by (simp add: fr)
    then show ?thesis
    proof
      assume a: "bl1 = Some (pr, c) \<and> hb' = of_nat i"
      with sc True have "c \<in> set (buckets st ! i) \<and> refcnt (bufs st ! c) = 0"
        by (auto dest: scan_chain_found)
      with a show ?thesis by auto
    next
      assume "\<exists>j \<in> set rest. c \<in> set (buckets st ! j) \<and> refcnt (bufs st ! c) = 0 \<and> hb' = of_nat j"
      then show ?thesis by auto
    qed
  qed
qed

lemma scan_buckets_keeps:
  "scan_buckets is (Some x) hb st = (bl', hb', st') \<Longrightarrow> bl' \<noteq> None"
proof (induction "is" arbitrary: x hb st)
  case Nil
  then show ?case by auto
next
  case (Cons i rest)
  obtain bl1 nf where sc: "scan_chain (bufs st) (Head i) (buckets st ! i) (Some x, False) = (bl1, nf)"
    by (cases "scan_chain (bufs st) (Head i) (buckets st ! i) (Some x, False)")
  then obtain y where "bl1 = Some y" by (cases bl1) (auto dest: scan_chain_None)
  with Cons.prems sc show ?case
    by (auto simp: scan_buckets_Cons split: if_splits dest: Cons.IH)
qed

text \<open>When the scan finds nothing, every bucket lock is taken and given back in turn.\<close>

lemma scan_buckets_None:
  "scan_buckets is None hb st = (None, hb', st') \<Longrightarrow>
     hb' = hb \<and> (\<forall>i \<in> set is. \<forall>n \<in> set (buckets st ! i). refcnt (bufs st ! n) \<noteq> 0) \<and>
     trace st' = trace st @ concat (map (\<lambda>i. [Acquire (BucketLock i), Release (BucketLock i)]) is)"
proof (induction "is" arbitrary: st)
  case Nil
  then show ?case by simp
next
  case (Cons i rest)
  obtain bl1 nf where sc: "scan_chain (bufs st) (Head i) (buckets st ! i) (None, False) = (bl1, nf)"
    by (cases "scan_chain (bufs st) (Head i) (buckets st ! i) (None, False)")
  have nf: "\<not> nf"
  proof
    assume nf
    with sc obtain pr c where "bl1 = Some (pr, c)" by (auto dest: scan_chain_found)
    with Cons.prems sc \<open>nf\<close> show False
      by (auto simp: scan_buckets_Cons dest: scan_buckets_keeps)
  qed
  with sc have bl1: "bl1 = None" by (auto dest: scan_chain_mono)
  from sc bl1 have free: "\<forall>n \<in> set (buckets st ! i). refcnt (bufs st ! n) \<noteq> 0"
    by (auto dest: scan_chain_None)
  from Cons.prems sc nf bl1
  have "scan_buckets rest None hb (release (BucketLock i) (acquire (BucketLock i) st)) = (None, hb', st')"
    by (simp add: scan_buckets_Cons)
  from Cons.IH [OF this] free show ?case by simp
qed

lemma scan_buckets_all_referenced:
  "\<forall>i \<in> set is. \<forall>n \<in> set (buckets st ! i). refcnt (bufs st ! n) \<noteq> 0 \<Longrightarrow>
     \<exists>st'. scan_buckets is None hb st = (None, hb, st')"
proof -
  assume a: "\<forall>i \<in> set is. \<forall>n \<in> set (buckets st ! i). refcnt (bufs st ! n) \<noteq> 0"
  obtain bl' hb' st' where r: "scan_buckets is None hb st = (bl', hb', st')"
    by (cases "scan_buckets is None hb st")
  show ?thesis
  proof (cases bl')
    case None
    with r show ?thesis by (auto dest: scan_buckets_None)
  next
    case (Some x)
    obtain pr c where "x = (pr, c)" by (cases x)
    with r Some a show ?thesis by (auto dest!: scan_buckets_Some)
  qed
qed

lemma held_pairs:
  "foldl held_step hs (concat (map (\<lambda>i. [Acquire (BucketLock i), Release (BucketLock i)]) is)) = hs"
  by (induction "is") simp_all

subsection \<open>Frames of the steps of bget\<close>

lemma relink_simps [simp]:
  "bufs (relink b h k st) = bufs st"
  "ticks (relink b h k st) = ticks st"
  "disk (relink b h k st) = disk st"
  "buckets (relink b h k st) =
     ((buckets st)[h := remove1 b (buckets st ! h)])
       [k := b # ((buckets st)[h := remove1 b (buckets st ! h)] ! k)]"
  "trace (relink b h k st) = trace st @ [Release (BucketLock h), Acquire (BucketLock k)]"
  by (simp_all add: relink_def Let_def)

lemma claim_simps [simp]:
  "buckets (claim b d bn st) = buckets st"
  "ticks (claim b d bn st) = ticks st"
  "disk (claim b d bn st) = disk st"
  "trace (claim b d bn st) = trace st"
  "bufs (claim b d bn st) =
     (bufs st)[b := (bufs st ! b)\<lparr>dev := d, blockno := bn, valid := False,
                                  refcnt := 1, timestamp := ticks st\<rparr>]"
  by (simp_all add: claim_def)

lemma touch_simps [simp]:
  "buckets (touch b st) = buckets st"
  "ticks (touch b st) = ticks st"
  "disk (touch b st) = disk st"
  "trace (touch b st) = trace st"
  "bufs (touch b st) =
     (bufs st)[b := (bufs st ! b)\<lparr>refcnt := refcnt (bufs st ! b) + 1, timestamp := ticks st\<rparr>]"
  by (simp_all add: touch_def)

lemma acquiresleep_cases:
  "acquiresleep p b st =
     (if lock (bufs st ! b) = None
      then Returned (st\<lparr>bufs := (bufs st)[b := (bufs st ! b)\<lparr>lock := Some p\<rparr>],
                        trace := trace st @ [AcquireSleep b]\<rparr>) b
      else Blocked st b)"
  by (simp add: acquiresleep_def split: option.splits)

lemma acquiresleep_buf_of [simp]: "buf_of (acquiresleep p b st) = Some b"
  by (simp add: acquiresleep_cases)

lemma acquiresleep_returned [simp]:
  "returned (acquiresleep p b st) = (lock (bufs st ! b) = None)"
  by (simp add: acquiresleep_cases)

lemma acquiresleep_frame:
  "buckets (state_of (acquiresleep p b st)) = buckets st"
  "ticks (state_of (acquiresleep p b st)) = ticks st"
  "disk (state_of (acquiresleep p b st)) = disk st"
  "c \<noteq> b \<Longrightarrow> bufs (state_of (acquiresleep p b st)) ! c = bufs st ! c"
  "length (bufs (state_of (acquiresleep p b st))) = length (bufs st)"
  by (simp_all add: acquiresleep_cases)

lemma acquiresleep_not_panic: "acquiresleep p b st \<noteq> Panic m st'"
  by (simp add: acquiresleep_cases)

text \<open>The hit of the re-check and the two ways the scan can end, with the \<open>let\<close>s unfolded.\<close>

lemma bget_slow_hit:
  "lookup (bufs st) (buckets st ! unat (BUFMAP_HASH d bn)) d bn = Some b \<Longrightarrow>
   bget_slow p d bn st =
     acquiresleep p b
       (release BcacheLock (release (BucketLock (unat (BUFMAP_HASH d bn)))
          (touch b (acquire (BucketLock (unat (BUFMAP_HASH d bn))) (acquire BcacheLock st)))))"
  by (simp add: bget_slow_def Let_def)

lemma bget_slow_evict:
  "lookup (bufs st) (buckets st ! unat (BUFMAP_HASH d bn)) d bn = None \<Longrightarrow>
   scan_buckets [0..<NBUCKET] None (- 1) (acquire BcacheLock st) = (Some (pr, b), hb, st2) \<Longrightarrow>
   bget_slow p d bn st =
     acquiresleep p b
       (release BcacheLock (release (BucketLock (unat (BUFMAP_HASH d bn)))
          (claim b d bn
             (if hb \<noteq> BUFMAP_HASH d bn
              then relink b (unat hb) (unat (BUFMAP_HASH d bn)) st2 else st2))))"
  by (simp add: bget_slow_def Let_def)

lemma bget_slow_exhausted:
  "lookup (bufs st) (buckets st ! unat (BUFMAP_HASH d bn)) d bn = None \<Longrightarrow>
   scan_buckets [0..<NBUCKET] None (- 1) (acquire BcacheLock st) = (None, hb, st2) \<Longrightarrow>
   bget_slow p d bn st = Panic ''bget: no buffers'' (release BcacheLock st2)"
  by (simp add: bget_slow_def Let_def)

lemma bget_slow_panic:
  assumes miss: "lookup (bufs st) (buckets st ! unat (BUFMAP_HASH d bn)) d bn = None"
    and busy: "\<forall>i<NBUCKET. \<forall>n \<in> set (buckets st ! i). refcnt (bufs st ! n) \<noteq> 0"
  shows "bget_slow p d bn st =
           Panic ''bget: no buffers''
             (st\<lparr>trace := trace st @ Acquire BcacheLock #
                     concat (map (\<lambda>i. [Acquire (BucketLock i), Release (BucketLock i)]) [0..<NBUCKET])
                     @ [Release BcacheLock]\<rparr>)"
proof -
  from busy have "\<forall>i \<in> set [0..<NBUCKET]. \<forall>n \<in> set (buckets (acquire BcacheLock st) ! i).
                    refcnt (bufs (acquire BcacheLock st) ! n) \<noteq> 0"
    by simp
  from scan_buckets_all_referenced [OF this]
  obtain st2 where sc: "scan_buckets [0..<NBUCKET] None (- 1) (acquire BcacheLock st) = (None, - 1, st2)"
    by blast
  from scan_buckets_None [OF sc] scan_buckets_frame [OF sc]
  have "release BcacheLock st2 =
          st\<lparr>trace := trace st @ Acquire BcacheLock #
                concat (map (\<lambda>i. [Acquire (BucketLock i), Release (BucketLock i)]) [0..<NBUCKET])
                @ [Release BcacheLock]\<rparr>"
    by (simp add: release_def)
  with bget_slow_exhausted [OF miss sc] show ?thesis by simp
qed

subsection \<open>Facts about the initial state and the hash\<close>

lemma binit_simps [simp]:
  "bufs (binit n t) = replicate n buf0"
  "ticks (binit n t) = t"
  "trace (binit n t) = []"
  "length (buckets (binit n t)) = NBUCKET"
  by (simp_all add: binit_def NBUCKET_def)

lemma binit_bucket:
  "i < NBUCKET \<Longrightarrow> buckets (binit n t) ! i = (if i = 0 then rev [0..<n] else [])"
  by (cases i) (simp_all add: binit_def NBUCKET_def)

lemma buf0_simps [simp]:
  "dev buf0 = 0" "blockno buf0 = 0" "refcnt buf0 = 0" "timestamp buf0 = 0"
  "lock buf0 = None" "valid buf0 = False"
  by (simp_all add: buf0_def)

lemma bpin_simps [simp]:
  "buckets (bpin b st) = buckets st"
  "ticks (bpin b st) = ticks st"
  "disk (bpin b st) = disk st"
  "bufs (bpin b st) = (bufs st)[b := (bufs st ! b)\<lparr>refcnt := refcnt (bufs st ! b) + 1\<rparr>]"
  by (simp_all add: bpin_def Let_def)

lemma bunpin_simps [simp]:
  "buckets (bunpin b st) = buckets st"
  "ticks (bunpin b st) = ticks st"
  "disk (bunpin b st) = disk st"
  "bufs (bunpin b st) = (bufs st)[b := (bufs st ! b)\<lparr>refcnt := refcnt (bufs st ! b) - 1\<rparr>]"
  by (simp_all add: bunpin_def Let_def)

lemma bget_fast_miss:
  "lookup (bufs st) (buckets st ! unat (BUFMAP_HASH d bn)) d bn = None \<Longrightarrow>
   bget_fast p d bn st =
     Inl (st\<lparr>trace := trace st @ [Acquire (BucketLock (unat (BUFMAP_HASH d bn))),
                                    Release (BucketLock (unat (BUFMAP_HASH d bn)))]\<rparr>)"
  by (simp add: bget_fast_def Let_def acquire_def release_def)

lemma held_append: "foldl held_step hs (xs @ ys) = foldl held_step (foldl held_step hs xs) ys"
  by simp

lemma held_panic_trace:
  "held (pre @ Acquire BcacheLock #
           concat (map (\<lambda>i. [Acquire (BucketLock i), Release (BucketLock i)]) is)
           @ [Release BcacheLock]) = held pre"
  by (simp add: held_def held_pairs)

text \<open>
  C6. When the re-check misses and no buffer of any chain has reference count 0, the
  lookup halts the kernel with \<^verbatim>\<open>panic("bget: no buffers")\<close>: it neither returns a
  buffer nor sleeps, it leaves buffers and chains as they were, and it holds none of the
  locks it took. This holds for the pass under the cache-wide lock alone and for the
  whole of \<^verbatim>\<open>bget\<close> and \<^verbatim>\<open>bread\<close>.
\<close>

theorem bget_exhausted_panics:
  assumes miss: "lookup (bufs st) (buckets st ! unat (BUFMAP_HASH d bn)) d bn = None"
    and busy: "\<forall>i<NBUCKET. \<forall>n \<in> set (buckets st ! i). refcnt (bufs st ! n) \<noteq> 0"
  shows "(\<exists>st'. bget_slow p d bn st = Panic ''bget: no buffers'' st' \<and>
                bufs st' = bufs st \<and> buckets st' = buckets st \<and>
                held (drop (length (trace st)) (trace st')) = []) \<and>
         (\<exists>st'. bget p d bn st = Panic ''bget: no buffers'' st' \<and>
                bread p d bn st = Panic ''bget: no buffers'' st' \<and>
                bufs st' = bufs st \<and> buckets st' = buckets st \<and>
                held (drop (length (trace st)) (trace st')) = [])"
proof
  show "\<exists>st'. bget_slow p d bn st = Panic ''bget: no buffers'' st' \<and>
              bufs st' = bufs st \<and> buckets st' = buckets st \<and>
              held (drop (length (trace st)) (trace st')) = []"
    using bget_slow_panic [OF miss busy, of p] held_panic_trace [of "[]"]
    by (simp add: held_def)
next
  let ?k = "unat (BUFMAP_HASH d bn)"
  define st1 where "st1 = st\<lparr>trace := trace st @ [Acquire (BucketLock ?k), Release (BucketLock ?k)]\<rparr>"
  have fast: "bget_fast p d bn st = Inl st1"
    using bget_fast_miss [OF miss] by (simp add: st1_def)
  have miss1: "lookup (bufs st1) (buckets st1 ! unat (BUFMAP_HASH d bn)) d bn = None"
    using miss by (simp add: st1_def)
  have busy1: "\<forall>i<NBUCKET. \<forall>n \<in> set (buckets st1 ! i). refcnt (bufs st1 ! n) \<noteq> 0"
    using busy by (simp add: st1_def)
  have "held ([Acquire (BucketLock ?k), Release (BucketLock ?k)] @ Acquire BcacheLock #
           concat (map (\<lambda>i. [Acquire (BucketLock i), Release (BucketLock i)]) [0..<NBUCKET])
           @ [Release BcacheLock]) = []"
    unfolding held_panic_trace by (simp add: held_def)
  then show "\<exists>st'. bget p d bn st = Panic ''bget: no buffers'' st' \<and>
              bread p d bn st = Panic ''bget: no buffers'' st' \<and>
              bufs st' = bufs st \<and> buckets st' = buckets st \<and>
              held (drop (length (trace st)) (trace st')) = []"
    using bget_slow_panic [OF miss1 busy1, of p] fast
    by (simp add: bget_def bread_def st1_def)
qed

theorem bget_exhausted_panics_witness:
  "(\<exists>st'. bget_slow 7 1 1 (bpin 0 (binit 1 0)) = Panic ''bget: no buffers'' st' \<and>
          bufs st' = bufs (bpin 0 (binit 1 0)) \<and> buckets st' = buckets (bpin 0 (binit 1 0)) \<and>
          held (drop (length (trace (bpin 0 (binit 1 0)))) (trace st')) = []) \<and>
   (\<exists>st'. bget 7 1 1 (bpin 0 (binit 1 0)) = Panic ''bget: no buffers'' st' \<and>
          bread 7 1 1 (bpin 0 (binit 1 0)) = Panic ''bget: no buffers'' st' \<and>
          bufs st' = bufs (bpin 0 (binit 1 0)) \<and> buckets st' = buckets (bpin 0 (binit 1 0)) \<and>
          held (drop (length (trace (bpin 0 (binit 1 0)))) (trace st')) = [])"
proof -
  have h: "unat (BUFMAP_HASH 1 1) = 9" by (simp add: BUFMAP_HASH_def)
  have miss: "lookup (bufs (bpin 0 (binit 1 0)))
                (buckets (bpin 0 (binit 1 0)) ! unat (BUFMAP_HASH 1 1)) 1 1 = None"
    by (simp add: h binit_bucket NBUCKET_def lookup_def)
  have busy: "\<forall>i<NBUCKET. \<forall>n \<in> set (buckets (bpin 0 (binit 1 0)) ! i).
                 refcnt (bufs (bpin 0 (binit 1 0)) ! n) \<noteq> 0"
    by (simp add: binit_bucket)
  show ?thesis by (rule bget_exhausted_panics [OF miss busy])
qed

text \<open>What the eviction path hands out, in terms of the scan's result.\<close>

lemma bget_slow_evict_result:
  assumes miss: "lookup (bufs st) (buckets st ! unat (BUFMAP_HASH d bn)) d bn = None"
    and r: "buf_of (bget_slow p d bn st) = Some b"
  shows "\<exists>pr hb st2. scan_buckets [0..<NBUCKET] None (- 1) (acquire BcacheLock st) = (Some (pr, b), hb, st2)"
proof -
  obtain bl hb st2 where sc: "scan_buckets [0..<NBUCKET] None (- 1) (acquire BcacheLock st) = (bl, hb, st2)"
    by (cases "scan_buckets [0..<NBUCKET] None (- 1) (acquire BcacheLock st)")
  show ?thesis
  proof (cases bl)
    case None
    with sc r bget_slow_exhausted [OF miss, of hb st2 p] show ?thesis by auto
  next
    case (Some x)
    obtain pr c where x: "x = (pr, c)" by (cases x)
    from sc Some x have sc': "scan_buckets [0..<NBUCKET] None (- 1) (acquire BcacheLock st) = (Some (pr, c), hb, st2)"
      by simp
    from r bget_slow_evict [OF miss sc', of p] have "c = b"
      by simp
    with sc' show ?thesis by blast
  qed
qed

text \<open>
  C3. On the eviction path (the re-check missed) the buffer the lookup hands out, the
  one whose key it has reassigned, had reference count 0 in the state the scan read, and
  no other buffer of the pool was changed.
\<close>

theorem eviction_takes_unreferenced:
  assumes miss: "lookup (bufs st) (buckets st ! unat (BUFMAP_HASH d bn)) d bn = None"
    and r: "buf_of (bget_slow p d bn st) = Some b"
  shows "refcnt (bufs st ! b) = 0 \<and>
         (\<forall>c. c \<noteq> b \<longrightarrow> bufs (state_of (bget_slow p d bn st)) ! c = bufs st ! c)"
proof -
  from bget_slow_evict_result [OF miss r] obtain pr hb st2 where
    sc: "scan_buckets [0..<NBUCKET] None (- 1) (acquire BcacheLock st) = (Some (pr, b), hb, st2)"
    by blast
  from scan_buckets_Some [OF sc] have free: "refcnt (bufs st ! b) = 0" by auto
  from scan_buckets_frame [OF sc] have fr: "bufs st2 = bufs st" by simp
  have "\<forall>c. c \<noteq> b \<longrightarrow> bufs (state_of (bget_slow p d bn st)) ! c = bufs st ! c"
    by (simp add: bget_slow_evict [OF miss sc] acquiresleep_frame fr)
  with free show ?thesis by simp
qed

theorem eviction_takes_unreferenced_witness:
  "buf_of (bget_slow 7 1 1 (binit 2 0)) = Some 1 \<and>
   refcnt (bufs (binit 2 0) ! 1) = 0 \<and>
   bufs (state_of (bget_slow 7 1 1 (binit 2 0))) ! 0 = bufs (binit 2 0) ! 0"
proof -
  have h: "unat (BUFMAP_HASH 1 1) = 9" by (simp add: BUFMAP_HASH_def)
  have miss: "lookup (bufs (binit 2 0)) (buckets (binit 2 0) ! unat (BUFMAP_HASH 1 1)) 1 1 = None"
    by (simp add: h binit_bucket NBUCKET_def lookup_def)
  have r: "buf_of (bget_slow 7 1 1 (binit 2 0)) = Some 1"
    by code_simp
  from eviction_takes_unreferenced [OF miss r] r show ?thesis by simp
qed

lemma hash_bound: "unat (BUFMAP_HASH d bn) < NBUCKET"
  by (simp add: BUFMAP_HASH_def NBUCKET_def unat_mod)

lemma holding_bucket_eq:
  "i < NBUCKET \<Longrightarrow> unat (of_nat i :: uint) = i"
  by (simp add: unat_of_nat NBUCKET_def)

lemma holding_bucket_key:
  "i < NBUCKET \<Longrightarrow> ((of_nat i :: uint) = k) = (i = unat k)"
  by (auto simp: holding_bucket_eq)

lemma chains_okD:
  assumes "chains_ok st"
  shows "length (buckets st) = NBUCKET"
    and "i < NBUCKET \<Longrightarrow> distinct (buckets st ! i)"
    and "i < NBUCKET \<Longrightarrow> b \<in> set (buckets st ! i) \<Longrightarrow> b < length (bufs st)"
    and "i < NBUCKET \<Longrightarrow> j < NBUCKET \<Longrightarrow> b \<in> set (buckets st ! i) \<Longrightarrow> b \<in> set (buckets st ! j) \<Longrightarrow> j = i"
  using assms by (auto simp: chains_ok_def)

lemma chains_ok_binit: "chains_ok (binit n t)"
  by (auto simp: chains_ok_def binit_bucket split: if_splits)

lemma covered_binit: "covered (binit n t)"
  unfolding covered_def
proof (intro allI impI)
  fix b assume "b < length (bufs (binit n t))"
  then have "b \<in> set (buckets (binit n t) ! 0)" by (simp add: binit_bucket NBUCKET_def)
  moreover have "0 < NBUCKET" by (simp add: NBUCKET_def)
  ultimately show "\<exists>i<NBUCKET. b \<in> set (buckets (binit n t) ! i)" by blast
qed

lemma hashed_ok_binit: "hashed_ok (binit n t)"
  by (auto simp: hashed_ok_def binit_bucket BUFMAP_HASH_def split: if_splits)

subsection \<open>The state after an eviction\<close>

lemma bget_slow_evict_state:
  assumes wf: "chains_ok st"
    and miss: "lookup (bufs st) (buckets st ! unat (BUFMAP_HASH d bn)) d bn = None"
    and r: "buf_of (bget_slow p d bn st) = Some b"
  obtains h where
    "h < NBUCKET" "b \<in> set (buckets st ! h)" "refcnt (bufs st ! b) = 0" "b < length (bufs st)"
    "buckets (state_of (bget_slow p d bn st)) =
       (if h = unat (BUFMAP_HASH d bn) then buckets st
        else (buckets st)[h := remove1 b (buckets st ! h),
                          unat (BUFMAP_HASH d bn) := b # (buckets st ! unat (BUFMAP_HASH d bn))])"
    "bufs (state_of (bget_slow p d bn st)) =
       (bufs st)[b := (if lock (bufs st ! b) = None
          then (bufs st ! b)\<lparr>dev := d, blockno := bn, valid := False, refcnt := 1,
                              timestamp := ticks st, lock := Some p\<rparr>
          else (bufs st ! b)\<lparr>dev := d, blockno := bn, valid := False, refcnt := 1,
                              timestamp := ticks st\<rparr>)]"
    "returned (bget_slow p d bn st) = (lock (bufs st ! b) = None)"
    "ticks (state_of (bget_slow p d bn st)) = ticks st"
    "disk (state_of (bget_slow p d bn st)) = disk st"
proof -
  let ?k = "unat (BUFMAP_HASH d bn)"
  from bget_slow_evict_result [OF miss r] obtain pr hb st2 where
    sc: "scan_buckets [0..<NBUCKET] None (- 1) (acquire BcacheLock st) = (Some (pr, b), hb, st2)"
    by blast
  from scan_buckets_Some [OF sc] obtain h where
    h: "h < NBUCKET" "b \<in> set (buckets st ! h)" "refcnt (bufs st ! b) = 0" "hb = of_nat h"
    by auto
  from scan_buckets_frame [OF sc] have fr:
    "bufs st2 = bufs st" "buckets st2 = buckets st" "ticks st2 = ticks st" "disk st2 = disk st"
    by simp_all
  from wf h have b: "b < length (bufs st)" by (auto dest: chains_okD)
  have hk: "(hb \<noteq> BUFMAP_HASH d bn) = (h \<noteq> ?k)" "unat hb = h"
    using h by (simp_all add: holding_bucket_key holding_bucket_eq)
  have len: "h < length (buckets st)" "?k < length (buckets st)"
    using wf h hash_bound [of d bn] by (simp_all add: chains_okD)
  let ?st3 = "if hb \<noteq> BUFMAP_HASH d bn then relink b (unat hb) ?k st2 else st2"
  have bk3: "buckets ?st3 =
             (if h = ?k then buckets st
              else (buckets st)[h := remove1 b (buckets st ! h), ?k := b # (buckets st ! ?k)])"
    using len by (simp add: hk fr)
  have fr3: "bufs ?st3 = bufs st" "ticks ?st3 = ticks st" "disk ?st3 = disk st"
    by (simp_all add: fr)
  have eq: "bget_slow p d bn st =
          acquiresleep p b (release BcacheLock (release (BucketLock ?k) (claim b d bn ?st3)))"
    by (rule bget_slow_evict [OF miss sc])
  have bk: "buckets (state_of (bget_slow p d bn st)) = buckets ?st3"
    unfolding eq by (simp only: acquiresleep_frame release_simps claim_simps)
  have bf: "bufs (state_of (bget_slow p d bn st)) =
       (bufs st)[b := (if lock (bufs st ! b) = None
          then (bufs st ! b)\<lparr>dev := d, blockno := bn, valid := False, refcnt := 1,
                              timestamp := ticks st, lock := Some p\<rparr>
          else (bufs st ! b)\<lparr>dev := d, blockno := bn, valid := False, refcnt := 1,
                              timestamp := ticks st\<rparr>)]"
    unfolding eq using b
    by (cases "lock (bufs st ! b)")
       (simp_all add: acquiresleep_cases fr3)
  have rt: "returned (bget_slow p d bn st) = (lock (bufs st ! b) = None)"
    unfolding eq using b by (simp add: fr3 del: if_split)
  have td: "ticks (state_of (bget_slow p d bn st)) = ticks st"
       "disk (state_of (bget_slow p d bn st)) = disk st"
    unfolding eq by (simp_all only: acquiresleep_frame release_simps claim_simps fr3)
  show thesis
    by (rule that [OF h(1) h(2) h(3) b bk [unfolded bk3] bf rt td])
qed

lemma relinked_membership:
  assumes wf: "chains_ok st"
    and h: "h < NBUCKET" "b \<in> set (buckets st ! h)"
    and k: "k < NBUCKET"
    and j: "j < NBUCKET"
  shows "b \<in> set ((if h = k then buckets st
                   else (buckets st)[h := remove1 b (buckets st ! h), k := b # (buckets st ! k)]) ! j)
         \<longleftrightarrow> j = k"
proof (cases "h = k")
  case True
  with wf h j show ?thesis by (auto dest: chains_okD(4))
next
  case False
  have len: "length (buckets st) = NBUCKET" using wf by (rule chains_okD)
  have dist: "distinct (buckets st ! h)" using wf h by (auto dest: chains_okD)
  show ?thesis
  proof (cases "j = k")
    case True
    with False len k show ?thesis by simp
  next
    case jk: False
    show ?thesis
    proof (cases "j = h")
      case True
      with False jk len h dist show ?thesis by simp
    next
      case jh: False
      from wf h j have "b \<in> set (buckets st ! j) \<Longrightarrow> j = h" by (auto dest: chains_okD(4))
      with False jk jh len show ?thesis by auto
    qed
  qed
qed

text \<open>
  C7. When the pass under the cache-wide lock evicts (the re-check missed and the scan
  found a buffer), the buffer \<open>b\<close> it hands out carries the requested key, is not valid,
  has reference count 1 and the current tick as timestamp, and is on the chain the key
  hashes to and on no other chain. The call returns exactly when the buffer's blocking
  lock was free, and the caller then holds that lock; otherwise the caller sleeps in
  \<^verbatim>\<open>acquiresleep\<close>.
\<close>

theorem eviction_claims_slot:
  assumes wf: "chains_ok st"
    and miss: "lookup (bufs st) (buckets st ! unat (BUFMAP_HASH d bn)) d bn = None"
    and r: "buf_of (bget_slow p d bn st) = Some b"
  shows "dev (bufs (state_of (bget_slow p d bn st)) ! b) = d \<and>
         blockno (bufs (state_of (bget_slow p d bn st)) ! b) = bn \<and>
         \<not> valid (bufs (state_of (bget_slow p d bn st)) ! b) \<and>
         refcnt (bufs (state_of (bget_slow p d bn st)) ! b) = 1 \<and>
         timestamp (bufs (state_of (bget_slow p d bn st)) ! b) = ticks st \<and>
         (\<forall>j<NBUCKET. b \<in> set (buckets (state_of (bget_slow p d bn st)) ! j)
                        \<longleftrightarrow> j = unat (BUFMAP_HASH d bn)) \<and>
         returned (bget_slow p d bn st) = (lock (bufs st ! b) = None) \<and>
         (returned (bget_slow p d bn st) \<longrightarrow>
            lock (bufs (state_of (bget_slow p d bn st)) ! b) = Some p)"
proof -
  let ?st' = "state_of (bget_slow p d bn st)"
  let ?k = "unat (BUFMAP_HASH d bn)"
  obtain h where
    h: "h < NBUCKET" "b \<in> set (buckets st ! h)" "refcnt (bufs st ! b) = 0" "b < length (bufs st)"
    and bk: "buckets ?st' =
             (if h = ?k then buckets st
              else (buckets st)[h := remove1 b (buckets st ! h), ?k := b # (buckets st ! ?k)])"
    and bf: "bufs ?st' =
             (bufs st)[b := (if lock (bufs st ! b) = None
                then (bufs st ! b)\<lparr>dev := d, blockno := bn, valid := False, refcnt := 1,
                                    timestamp := ticks st, lock := Some p\<rparr>
                else (bufs st ! b)\<lparr>dev := d, blockno := bn, valid := False, refcnt := 1,
                                    timestamp := ticks st\<rparr>)]"
    and rt: "returned (bget_slow p d bn st) = (lock (bufs st ! b) = None)"
    by (rule bget_slow_evict_state [OF wf miss r])
  have fields: "dev (bufs ?st' ! b) = d" "blockno (bufs ?st' ! b) = bn" "\<not> valid (bufs ?st' ! b)"
     "refcnt (bufs ?st' ! b) = 1" "timestamp (bufs ?st' ! b) = ticks st"
     "lock (bufs st ! b) = None \<longrightarrow> lock (bufs ?st' ! b) = Some p"
    using h(4) by (simp_all add: bf)
  have memb: "\<forall>j<NBUCKET. b \<in> set (buckets ?st' ! j) \<longleftrightarrow> j = ?k"
    unfolding bk using relinked_membership [OF wf h(1,2) hash_bound] by blast
  from fields memb rt show ?thesis by simp
qed

theorem eviction_claims_slot_witness:
  "buf_of (bget_slow 7 1 1 (binit 2 5)) = Some 1 \<and>
   dev (bufs (state_of (bget_slow 7 1 1 (binit 2 5))) ! 1) = 1 \<and>
   blockno (bufs (state_of (bget_slow 7 1 1 (binit 2 5))) ! 1) = 1 \<and>
   \<not> valid (bufs (state_of (bget_slow 7 1 1 (binit 2 5))) ! 1) \<and>
   refcnt (bufs (state_of (bget_slow 7 1 1 (binit 2 5))) ! 1) = 1 \<and>
   timestamp (bufs (state_of (bget_slow 7 1 1 (binit 2 5))) ! 1) = 5 \<and>
   1 \<in> set (buckets (state_of (bget_slow 7 1 1 (binit 2 5))) ! 9) \<and>
   1 \<notin> set (buckets (state_of (bget_slow 7 1 1 (binit 2 5))) ! 0) \<and>
   returned (bget_slow 7 1 1 (binit 2 5)) \<and>
   lock (bufs (state_of (bget_slow 7 1 1 (binit 2 5))) ! 1) = Some 7"
proof -
  have h: "unat (BUFMAP_HASH 1 1) = 9" by (simp add: BUFMAP_HASH_def)
  have miss: "lookup (bufs (binit 2 5)) (buckets (binit 2 5) ! unat (BUFMAP_HASH 1 1)) 1 1 = None"
    by (simp add: h binit_bucket NBUCKET_def lookup_def)
  have r: "buf_of (bget_slow 7 1 1 (binit 2 5)) = Some 1"
    by code_simp
  have n: "(9::nat) < NBUCKET" "(0::nat) < NBUCKET" by (simp_all add: NBUCKET_def)
  from eviction_claims_slot [OF chains_ok_binit miss r] r n show ?thesis
    unfolding h by simp
qed

subsection \<open>The locks of the scan\<close>

lemma holding_bucket_set: "i < NBUCKET \<Longrightarrow> (of_nat i :: uint) \<noteq> - 1"
proof
  assume i: "i < NBUCKET" and "(of_nat i :: uint) = - 1"
  then have "unat (of_nat i :: uint) = unat (- 1 :: uint)" by simp
  moreover have "(- 1 :: uint) = 4294967295" by simp
  ultimately have "unat (of_nat i :: uint) = 4294967295" by simp
  with i show False by (simp add: holding_bucket_eq NBUCKET_def)
qed

lemma ascending_append:
  "ascending_acquires hs (xs @ ys) \<longleftrightarrow>
     ascending_acquires hs xs \<and> ascending_acquires (foldl held_step hs xs) ys"
  by (induction xs arbitrary: hs) auto

lemma max_bucket_locks_append:
  "max_bucket_locks hs (xs @ ys) =
     max (max_bucket_locks hs xs) (max_bucket_locks (foldl held_step hs xs) ys)"
proof (induction xs arbitrary: hs)
  case Nil
  show ?case by (cases ys) simp_all
next
  case (Cons x xs)
  then show ?case by simp
qed

lemma acquired_buckets_append:
  "acquired_buckets (xs @ ys) = acquired_buckets xs @ acquired_buckets ys"
  by (induction xs rule: acquired_buckets.induct) simp_all


lemma scan_held_of_nat: "i < NBUCKET \<Longrightarrow> scan_held (of_nat i) = [BucketLock i, BcacheLock]"
  by (simp add: scan_held_def holding_bucket_set holding_bucket_eq)

lemma scan_held_count: "length (filter is_bucket_lock (scan_held hb)) \<le> 1"
  by (simp add: scan_held_def)

lemma hb_ok_below: "hb_ok hb (i # rest) \<Longrightarrow> list_all (below i) (scan_held hb)"
  by (auto simp: hb_ok_def scan_held_def holding_bucket_eq)

lemma hb_ok_tail: "hb_ok hb (i # rest) \<Longrightarrow> hb_ok hb rest"
  by (auto simp: hb_ok_def)

lemma hb_ok_release:
  "hb_ok hb (i # rest) \<Longrightarrow> hb \<noteq> - 1 \<Longrightarrow>
     remove1 (BucketLock (unat hb)) (BucketLock i # scan_held hb) = [BucketLock i, BcacheLock]"
  by (auto simp: hb_ok_def scan_held_def holding_bucket_eq)

lemma scan_buckets_trace:
  assumes "scan_buckets is bl hb st = (bl', hb', st')"
    and "sorted_wrt (<) is" and "\<forall>i \<in> set is. i < NBUCKET"
    and "hb_ok hb is" and "(hb = - 1) = (bl = None)"
  shows "\<exists>es. trace st' = trace st @ es \<and>
              acquired_buckets es = is \<and>
              ascending_acquires (scan_held hb) es \<and>
              max_bucket_locks (scan_held hb) es \<le> 2 \<and>
              foldl held_step (scan_held hb) es = scan_held hb' \<and>
              (hb' = - 1) = (bl' = None)"
  using assms
proof (induction "is" arbitrary: bl hb st)
  case Nil
  then show ?case using scan_held_count [of hb] by simp
next
  case (Cons i rest)
  obtain bl1 nf where sc: "scan_chain (bufs st) (Head i) (buckets st ! i) (bl, False) = (bl1, nf)"
    by (cases "scan_chain (bufs st) (Head i) (buckets st ! i) (bl, False)")
  have i: "i < NBUCKET" using Cons.prems(3) by simp
  have sorted: "sorted_wrt (<) rest" and bnd: "\<forall>i \<in> set rest. i < NBUCKET"
    using Cons.prems(2,3) by simp_all
  have cnt: "length (filter is_bucket_lock (scan_held hb)) \<le> 1" by (rule scan_held_count)
  have ok: "acquire_ok (scan_held hb) (Acquire (BucketLock i))"
    using cnt hb_ok_below [OF Cons.prems(4)] by simp
  show ?case
  proof (cases nf)
    case False
    with sc have eq: "bl1 = bl" by (auto dest: scan_chain_mono)
    let ?st1 = "release (BucketLock i) (acquire (BucketLock i) st)"
    from Cons.prems(1) sc False
    have rec: "scan_buckets rest bl hb ?st1 = (bl', hb', st')"
      by (simp add: eq scan_buckets_Cons)
    from Cons.IH [OF rec sorted bnd hb_ok_tail [OF Cons.prems(4)] Cons.prems(5)]
    obtain es where es: "trace st' = trace ?st1 @ es" "acquired_buckets es = rest"
      "ascending_acquires (scan_held hb) es" "max_bucket_locks (scan_held hb) es \<le> 2"
      "foldl held_step (scan_held hb) es = scan_held hb'" "(hb' = - 1) = (bl' = None)"
      by blast
    let ?es = "Acquire (BucketLock i) # Release (BucketLock i) # es"
    have "trace st' = trace st @ ?es" using es(1) by simp
    moreover have "acquired_buckets ?es = i # rest" using es(2) by simp
    moreover have "ascending_acquires (scan_held hb) ?es" using ok es(3) by simp
    moreover have "max_bucket_locks (scan_held hb) ?es \<le> 2" using cnt es(4) by simp
    moreover have "foldl held_step (scan_held hb) ?es = scan_held hb'" using es(5) by simp
    ultimately show ?thesis using es(6) by blast
  next
    case True
    with sc obtain pr c where bl1: "bl1 = Some (pr, c)" by (auto dest: scan_chain_found)
    let ?rel = "if hb \<noteq> - 1 then [Release (BucketLock (unat hb))] else []"
    let ?st1 = "if hb \<noteq> - 1 then release (BucketLock (unat hb)) (acquire (BucketLock i) st)
                else acquire (BucketLock i) st"
    have tr1: "trace ?st1 = trace st @ Acquire (BucketLock i) # ?rel" by simp
    from Cons.prems(1) sc True
    have rec: "scan_buckets rest bl1 (of_nat i) ?st1 = (bl', hb', st')"
      by (simp add: scan_buckets_Cons)
    have hb1: "hb_ok (of_nat i) rest"
      using Cons.prems(2) i by (auto simp: hb_ok_def)
    have inv1: "((of_nat i :: uint) = - 1) = (bl1 = None)"
      using holding_bucket_set [OF i] bl1 by simp
    from Cons.IH [OF rec sorted bnd hb1 inv1]
    obtain es where es: "trace st' = trace ?st1 @ es" "acquired_buckets es = rest"
      "ascending_acquires (scan_held (of_nat i)) es" "max_bucket_locks (scan_held (of_nat i)) es \<le> 2"
      "foldl held_step (scan_held (of_nat i)) es = scan_held hb'" "(hb' = - 1) = (bl' = None)"
      by blast
    have step: "foldl held_step (scan_held hb) (Acquire (BucketLock i) # ?rel) = [BucketLock i, BcacheLock]"
      using hb_ok_release [OF Cons.prems(4)] by (simp add: scan_held_def)
    let ?pre = "Acquire (BucketLock i) # ?rel"
    have pre: "acquired_buckets ?pre = [i]" "ascending_acquires (scan_held hb) ?pre"
      "max_bucket_locks (scan_held hb) ?pre \<le> 2"
      using ok cnt by (simp_all add: scan_held_def)
    have "trace st' = trace st @ ?pre @ es" using es(1) tr1 by simp
    moreover have "acquired_buckets (?pre @ es) = i # rest"
      unfolding acquired_buckets_append using es(2) pre(1) by simp
    moreover have "ascending_acquires (scan_held hb) (?pre @ es)"
      unfolding ascending_append step using pre(2) es(3) by (simp add: scan_held_of_nat [OF i])
    moreover have "max_bucket_locks (scan_held hb) (?pre @ es) \<le> 2"
      unfolding max_bucket_locks_append step using pre(3) es(4)
      by (simp add: scan_held_of_nat [OF i])
    moreover have "foldl held_step (scan_held hb) (?pre @ es) = scan_held hb'"
      unfolding foldl_append step using es(5) by (simp add: scan_held_of_nat [OF i])
    ultimately show ?thesis using es(6) by blast
  qed
qed

lemma hb_ok_start: "hb_ok (- 1) is"
  by (simp add: hb_ok_def)

lemma scan_held_result:
  "(hb = - 1) = (bl = None) \<Longrightarrow>
   scan_held hb = (case bl of None \<Rightarrow> [BcacheLock] | Some x \<Rightarrow> [BucketLock (unat hb), BcacheLock])"
  by (cases bl) (simp_all add: scan_held_def)

text \<open>
  C5, as the code has it. The scan, run as \<^verbatim>\<open>bget\<close> runs it (all buckets, no candidate
  yet, the cache-wide lock just taken), acquires the bucket locks in the order
  \<open>0, 1, ..., NBUCKET - 1\<close>. Each of these acquisitions happens while at most one bucket
  lock is held, that of a bucket of smaller index, so a superseded bucket's lock and the
  lock of a bucket that gave no candidate are released before the next bucket's lock is
  taken. While a bucket is walked the scan can hold two bucket locks (the candidate's and
  the walked bucket's), never more. At the end it holds the cache-wide lock and, if there
  is a candidate, the lock of \<open>holding_bucket\<close>, on whose chain the candidate is.
\<close>

theorem scan_lock_discipline:
  "case scan_buckets [0..<NBUCKET] None (- 1) (acquire BcacheLock st) of
     (bl, hb, st2) \<Rightarrow>
       take (Suc (length (trace st))) (trace st2) = trace st @ [Acquire BcacheLock] \<and>
       acquired_buckets (drop (Suc (length (trace st))) (trace st2)) = [0..<NBUCKET] \<and>
       ascending_acquires [BcacheLock] (drop (Suc (length (trace st))) (trace st2)) \<and>
       max_bucket_locks [BcacheLock] (drop (Suc (length (trace st))) (trace st2)) \<le> 2 \<and>
       foldl held_step [BcacheLock] (drop (Suc (length (trace st))) (trace st2)) =
         (case bl of None \<Rightarrow> [BcacheLock]
          | Some (before_least, b) \<Rightarrow> [BucketLock (unat hb), BcacheLock]) \<and>
       (case bl of None \<Rightarrow> True
        | Some (before_least, b) \<Rightarrow> unat hb < NBUCKET \<and> b \<in> set (buckets st ! unat hb))"
proof -
  obtain bl hb st2 where
    sc: "scan_buckets [0..<NBUCKET] None (- 1) (acquire BcacheLock st) = (bl, hb, st2)"
    by (cases "scan_buckets [0..<NBUCKET] None (- 1) (acquire BcacheLock st)")
  have "\<exists>es. trace st2 = trace (acquire BcacheLock st) @ es \<and>
              acquired_buckets es = [0..<NBUCKET] \<and>
              ascending_acquires (scan_held (- 1)) es \<and>
              max_bucket_locks (scan_held (- 1)) es \<le> 2 \<and>
              foldl held_step (scan_held (- 1)) es = scan_held hb \<and>
              (hb = - 1) = (bl = None)"
    by (rule scan_buckets_trace [OF sc]) (simp_all add: hb_ok_start)
  then obtain es where es: "trace st2 = trace st @ Acquire BcacheLock # es"
     "acquired_buckets es = [0..<NBUCKET]" "ascending_acquires [BcacheLock] es"
     "max_bucket_locks [BcacheLock] es \<le> 2" "foldl held_step [BcacheLock] es = scan_held hb"
     "(hb = - 1) = (bl = None)"
    by (auto simp: scan_held_def)
  have tk: "take (Suc (length (trace st))) (trace st2) = trace st @ [Acquire BcacheLock]"
    and dr: "drop (Suc (length (trace st))) (trace st2) = es"
    using es(1) by simp_all
  have hd: "foldl held_step [BcacheLock] es =
         (case bl of None \<Rightarrow> [BcacheLock]
          | Some (before_least, b) \<Rightarrow> [BucketLock (unat hb), BcacheLock])"
    using es(5) scan_held_result [OF es(6)] by (simp split: option.splits)
  have cand: "case bl of None \<Rightarrow> True
        | Some (before_least, b) \<Rightarrow> unat hb < NBUCKET \<and> b \<in> set (buckets st ! unat hb)"
  proof (cases bl)
    case None
    then show ?thesis by simp
  next
    case (Some x)
    obtain pr b where x: "x = (pr, b)" by (cases x)
    from sc Some x scan_buckets_Some [of "[0..<NBUCKET]" None "- 1" "acquire BcacheLock st" pr b hb st2]
    obtain i where "i < NBUCKET" "b \<in> set (buckets st ! i)" "hb = of_nat i" by auto
    with Some x show ?thesis by (simp add: holding_bucket_eq)
  qed
  show ?thesis
    unfolding sc prod.case dr using tk es(2,3,4) hd cand by simp
qed

theorem scan_lock_discipline_witness:
  "fst (scan_buckets [0..<NBUCKET] None (- 1) (acquire BcacheLock (binit 2 0))) = Some (Head 0, 1) \<and>
   fst (snd (scan_buckets [0..<NBUCKET] None (- 1) (acquire BcacheLock (binit 2 0)))) = 0 \<and>
   acquired_buckets (drop 1 (trace (snd (snd
     (scan_buckets [0..<NBUCKET] None (- 1) (acquire BcacheLock (binit 2 0))))))) = [0..<NBUCKET] \<and>
   ascending_acquires [BcacheLock] (drop 1 (trace (snd (snd
     (scan_buckets [0..<NBUCKET] None (- 1) (acquire BcacheLock (binit 2 0))))))) \<and>
   max_bucket_locks [BcacheLock] (drop 1 (trace (snd (snd
     (scan_buckets [0..<NBUCKET] None (- 1) (acquire BcacheLock (binit 2 0))))))) \<le> 2 \<and>
   foldl held_step [BcacheLock] (drop 1 (trace (snd (snd
     (scan_buckets [0..<NBUCKET] None (- 1) (acquire BcacheLock (binit 2 0))))))) =
     [BucketLock 0, BcacheLock] \<and>
   1 \<in> set (buckets (binit 2 0) ! 0)"
proof -
  obtain bl hb st2 where
    sc: "scan_buckets [0..<NBUCKET] None (- 1) (acquire BcacheLock (binit 2 0)) = (bl, hb, st2)"
    by (cases "scan_buckets [0..<NBUCKET] None (- 1) (acquire BcacheLock (binit 2 0))")
  have "fst (scan_buckets [0..<NBUCKET] None (- 1) (acquire BcacheLock (binit 2 0))) = Some (Head 0, 1)"
    "fst (snd (scan_buckets [0..<NBUCKET] None (- 1) (acquire BcacheLock (binit 2 0)))) = 0"
    by code_simp+
  with sc have v: "bl = Some (Head 0, 1)" "hb = 0" by simp_all
  from scan_lock_discipline [of "binit 2 0"] show ?thesis
    unfolding sc v by simp
qed

text \<open>
  The claim as worded fails: when the candidate is on chain 0, the scan takes the lock of
  bucket 1 while it still holds the lock of bucket 0.
\<close>

theorem scan_holds_two_bucket_locks:
  "take 3 (trace (state_of (bget_slow 7 1 1 (binit 2 0)))) =
     [Acquire BcacheLock, Acquire (BucketLock 0), Acquire (BucketLock 1)] \<and>
   bucket_locks_held (take 3 (trace (state_of (bget_slow 7 1 1 (binit 2 0))))) =
     [BucketLock 1, BucketLock 0] \<and>
   max_bucket_locks [] (trace (state_of (bget_slow 7 1 1 (binit 2 0)))) = 2"
  by code_simp

subsection \<open>The log of the pass under the cache-wide lock\<close>





lemma lookup_Some:
  "lookup bs chain d bn = Some b \<Longrightarrow> b \<in> set chain \<and> dev (bs ! b) = d \<and> blockno (bs ! b) = bn"
  by (auto simp: lookup_def find_Some_iff)

lemma lookup_None:
  "lookup bs chain d bn = None \<longleftrightarrow> (\<forall>b \<in> set chain. \<not> (dev (bs ! b) = d \<and> blockno (bs ! b) = bn))"
  by (auto simp: lookup_def find_None_iff)




section \<open>Reference counts and timestamps\<close>

text \<open>
  C2, evaluated at an input where it fails. In a pool of two buffers, process 7 reads
  block \<open>(1, 5)\<close> at tick 1 and process 8 reads block \<open>(1, 18)\<close> at tick 2; process 8
  releases at tick 3 and process 7 at tick 4. Both buffers are then unreferenced, buffer 0
  with timestamp 3 and buffer 1 with timestamp 4, and buffer 1 is first on chain 0. The
  lookup of block \<open>(1, 31)\<close> evicts buffer 1, not buffer 0: the scan compares the
  timestamp of buffer 0 with that of the dummy head standing before buffer 1, which is 0.
  The same calls in a pool of thirty buffers end with the eviction of buffer 29, released
  last (timestamp 4), while buffer 27 has timestamp 3 and the buffers never used have
  timestamp 0.
\<close>

theorem lru_scan_keeps_first_candidate:
  "buckets (run [Tick, Bread 7 1 5, Tick, Bread 8 1 18, Tick, Brelse 8 0, Tick, Brelse 7 1, Tick]
              (binit 2 0)) ! 0 = [1, 0] \<and>
   map (\<lambda>x. (dev x, blockno x, refcnt x, timestamp x))
     (bufs (run [Tick, Bread 7 1 5, Tick, Bread 8 1 18, Tick, Brelse 8 0, Tick, Brelse 7 1, Tick]
              (binit 2 0))) = [(1, 18, 0, 3), (1, 5, 0, 4)] \<and>
   fst (scan_buckets [0..<NBUCKET] None (- 1)
     (run [Tick, Bread 7 1 5, Tick, Bread 8 1 18, Tick, Brelse 8 0, Tick, Brelse 7 1, Tick]
              (binit 2 0))) = Some (Head 0, 1) \<and>
   buf_of (bget 9 1 31
     (run [Tick, Bread 7 1 5, Tick, Bread 8 1 18, Tick, Brelse 8 0, Tick, Brelse 7 1, Tick]
              (binit 2 0))) = Some 1 \<and>
   map (\<lambda>x. (dev x, blockno x, refcnt x, timestamp x))
     (map (nth (bufs (run [Tick, Bread 7 1 5, Tick, Bread 8 1 18, Tick, Brelse 8 27, Tick,
                           Brelse 7 29, Tick] (binit 30 0)))) [29, 27, 0])
     = [(1, 5, 0, 4), (1, 18, 0, 3), (0, 0, 0, 0)] \<and>
   buf_of (bget 9 1 31
     (run [Tick, Bread 7 1 5, Tick, Bread 8 1 18, Tick, Brelse 8 27, Tick, Brelse 7 29, Tick]
              (binit 30 0))) = Some 29"
  by code_simp

lemma brelse_held:
  "holdingsleep p (bufs st ! b) \<Longrightarrow> b < length (bufs st) \<Longrightarrow>
   brelse p b st =
     Inr (st\<lparr>bufs := (bufs st)[b := (bufs st ! b)
                 \<lparr>lock := None, refcnt := refcnt (bufs st ! b) - 1,
                   timestamp := (if refcnt (bufs st ! b) - 1 = 0 then ticks st
                                 else timestamp (bufs st ! b))\<rparr>],
            trace := trace st @
              [ReleaseSleep b,
               Acquire (BucketLock (unat (BUFMAP_HASH (dev (bufs st ! b)) (blockno (bufs st ! b))))),
               Release (BucketLock (unat (BUFMAP_HASH (dev (bufs st ! b)) (blockno (bufs st ! b)))))]\<rparr>)"
  by (simp add: brelse_def Let_def releasesleep_def acquire_def release_def)

text \<open>
  C8, as the code has it. \<^verbatim>\<open>brelse\<close>, called by the holder of the blocking lock,
  takes 1 from the reference count and sets the timestamp to the current tick when the
  count has become 0; otherwise it leaves the timestamp alone. \<^verbatim>\<open>bunpin\<close> takes 1
  from the reference count and never changes the timestamp, whether the count becomes 0
  or not.
\<close>

theorem release_stamps_unpin_does_not:
  assumes b: "b < length (bufs st)"
  shows "(holdingsleep p (bufs st ! b) \<longrightarrow>
            (\<exists>st'. brelse p b st = Inr st' \<and>
               refcnt (bufs st' ! b) = refcnt (bufs st ! b) - 1 \<and>
               timestamp (bufs st' ! b) =
                 (if refcnt (bufs st' ! b) = 0 then ticks st else timestamp (bufs st ! b)))) \<and>
         refcnt (bufs (bunpin b st) ! b) = refcnt (bufs st ! b) - 1 \<and>
         timestamp (bufs (bunpin b st) ! b) = timestamp (bufs st ! b)"
  using b by (simp add: brelse_held)

theorem release_stamps_unpin_does_not_witness:
  "(\<exists>st'. brelse 7 0 ((state_of (bget 7 1 1 (binit 1 3)))\<lparr>ticks := 9\<rparr>) = Inr st' \<and>
      refcnt (bufs st' ! 0) = 0 \<and> timestamp (bufs st' ! 0) = 9) \<and>
   refcnt (bufs (bunpin 0 ((state_of (bget 7 1 1 (binit 1 3)))\<lparr>ticks := 9\<rparr>)) ! 0) = 0 \<and>
   timestamp (bufs (bunpin 0 ((state_of (bget 7 1 1 (binit 1 3)))\<lparr>ticks := 9\<rparr>)) ! 0) = 3"
proof -
  let ?st = "(state_of (bget 7 1 1 (binit 1 3)))\<lparr>ticks := 9\<rparr>"
  have st: "refcnt (bufs ?st ! 0) = 1" "timestamp (bufs ?st ! 0) = 3" "ticks ?st = 9"
    "lock (bufs ?st ! 0) = Some 7" "length (bufs ?st) = 1"
    by code_simp+
  have b: "0 < length (bufs ?st)" unfolding st by simp
  have h: "holdingsleep 7 (bufs ?st ! 0)" unfolding holdingsleep_def by (rule st)
  from release_stamps_unpin_does_not [OF b, of 7] h
  have "(\<exists>st'. brelse 7 0 ?st = Inr st' \<and>
               refcnt (bufs st' ! 0) = refcnt (bufs ?st ! 0) - 1 \<and>
               timestamp (bufs st' ! 0) =
                 (if refcnt (bufs st' ! 0) = 0 then ticks ?st else timestamp (bufs ?st ! 0))) \<and>
         refcnt (bufs (bunpin 0 ?st) ! 0) = refcnt (bufs ?st ! 0) - 1 \<and>
         timestamp (bufs (bunpin 0 ?st) ! 0) = timestamp (bufs ?st ! 0)"
    by blast
  then have "(\<exists>st'. brelse 7 0 ?st = Inr st' \<and>
               refcnt (bufs st' ! 0) = 1 - 1 \<and>
               timestamp (bufs st' ! 0) = (if refcnt (bufs st' ! 0) = 0 then 9 else 3)) \<and>
         refcnt (bufs (bunpin 0 ?st) ! 0) = 1 - 1 \<and>
         timestamp (bufs (bunpin 0 ?st) ! 0) = 3"
    unfolding st .
  then obtain st' where "brelse 7 0 ?st = Inr st'" "refcnt (bufs st' ! 0) = 0"
      "timestamp (bufs st' ! 0) = (if refcnt (bufs st' ! 0) = 0 then 9 else 3)"
    and u: "refcnt (bufs (bunpin 0 ?st) ! 0) = 1 - 1" "timestamp (bufs (bunpin 0 ?st) ! 0) = 3"
    by auto
  then have "brelse 7 0 ?st = Inr st' \<and> refcnt (bufs st' ! 0) = 0 \<and> timestamp (bufs st' ! 0) = 9"
    by simp
  then have "\<exists>st'. brelse 7 0 ?st = Inr st' \<and> refcnt (bufs st' ! 0) = 0 \<and> timestamp (bufs st' ! 0) = 9"
    by (rule exI)
  moreover have "refcnt (bufs (bunpin 0 ?st) ! 0) = 0" unfolding u by simp
  ultimately show ?thesis using u(2) by (intro conjI)
qed

text \<open>
  The claim as worded fails for \<^verbatim>\<open>bunpin\<close>: at tick 9 it brings the count of a
  buffer from 1 to 0 and the timestamp stays 3.
\<close>

theorem unpin_to_zero_keeps_timestamp:
  "ticks ((state_of (bget 7 1 1 (binit 1 3)))\<lparr>ticks := 9\<rparr>) = 9 \<and>
   refcnt (bufs ((state_of (bget 7 1 1 (binit 1 3)))\<lparr>ticks := 9\<rparr>) ! 0) = 1 \<and>
   refcnt (bufs (bunpin 0 ((state_of (bget 7 1 1 (binit 1 3)))\<lparr>ticks := 9\<rparr>)) ! 0) = 0 \<and>
   timestamp (bufs (bunpin 0 ((state_of (bget 7 1 1 (binit 1 3)))\<lparr>ticks := 9\<rparr>)) ! 0) = 3"
  by code_simp

text \<open>
  C9. \<^verbatim>\<open>bwrite\<close> panics unless the caller holds the buffer's blocking lock. When the
  caller holds it, the call returns with the buffer's content written to the disk block
  of its key, and with every buffer (so validity, reference count, key and timestamp), every
  chain and the tick counter as before.
\<close>

theorem bwrite_frame:
  "(\<not> holdingsleep p (bufs st ! b) \<longrightarrow> bwrite p b st = Inl ''bwrite'') \<and>
   (holdingsleep p (bufs st ! b) \<longrightarrow>
      (\<exists>st'. bwrite p b st = Inr st' \<and> bufs st' = bufs st \<and> buckets st' = buckets st \<and>
             ticks st' = ticks st \<and> trace st' = trace st \<and>
             disk st' (dev (bufs st ! b), blockno (bufs st ! b)) = data (bufs st ! b)))"
  by (simp add: bwrite_def virtio_disk_rw_def Let_def)

theorem bwrite_frame_witness:
  "bwrite 8 0 (state_of (bget 7 1 1 (binit 1 3))) = Inl ''bwrite'' \<and>
   (\<exists>st'. bwrite 7 0 (state_of (bget 7 1 1 (binit 1 3))) = Inr st' \<and>
          bufs st' = bufs (state_of (bget 7 1 1 (binit 1 3))) \<and>
          buckets st' = buckets (state_of (bget 7 1 1 (binit 1 3))) \<and>
          disk st' (1, 1) = [])"
proof -
  let ?st = "state_of (bget 7 1 1 (binit 1 3))"
  have st: "bufs ?st = [buf0\<lparr>dev := 1, blockno := 1, lock := Some 7, refcnt := 1, timestamp := 3\<rparr>]"
    by code_simp
  have h: "holdingsleep 7 (bufs ?st ! 0)" "\<not> holdingsleep 8 (bufs ?st ! 0)"
    unfolding st by (simp_all add: holdingsleep_def)
  from bwrite_frame [of 8 ?st 0] bwrite_frame [of 7 ?st 0] h show ?thesis
    unfolding st by (auto simp: buf0_def)
qed

lemma unat_minus_one_uint: "unat (- 1 :: uint) = 4294967295"
proof -
  have "(- 1 :: uint) = 4294967295" by simp
  then show ?thesis by (simp only: unat_numeral) simp
qed

lemma bget_fast_hit:
  "lookup (bufs st) (buckets st ! unat (BUFMAP_HASH d bn)) d bn = Some b \<Longrightarrow>
   bget_fast p d bn st =
     Inr (acquiresleep p b
            (release (BucketLock (unat (BUFMAP_HASH d bn)))
               (touch b (acquire (BucketLock (unat (BUFMAP_HASH d bn))) st))))"
  by (simp add: bget_fast_def Let_def)

lemma hit_refcnt:
  "b < length (bufs st) \<Longrightarrow>
   refcnt (bufs (state_of (acquiresleep p b (release l (touch b (acquire l' st))))) ! b) =
     refcnt (bufs st ! b) + 1"
  "b < length (bufs st) \<Longrightarrow>
   refcnt (bufs (state_of (acquiresleep p b (release l (release l'' (touch b (acquire l' (acquire l3 st))))))) ! b) =
     refcnt (bufs st ! b) + 1"
  by (simp_all add: acquiresleep_cases)

text \<open>
  C10, as the code has it. \<^verbatim>\<open>bunpin\<close> has no check and no panic: it takes 1 from the
  reference count whatever its value. On a count of 0 the result is \<open>2^32 - 1\<close>; in the
  resulting state no eviction takes the buffer. This lasts as long as the count is not
  0: one \<^verbatim>\<open>bpin\<close> brings it back to 0, and so does one lookup that finds the
  buffer's key, be it under the bucket lock (the whole of \<^verbatim>\<open>bget\<close>) or in the re-check
  under the cache-wide lock.
\<close>

theorem bunpin_wraps:
  assumes b: "b < length (bufs st)"
  shows "refcnt (bufs (bunpin b st) ! b) = refcnt (bufs st ! b) - 1 \<and>
         (refcnt (bufs st ! b) = 0 \<longrightarrow>
            unat (refcnt (bufs (bunpin b st) ! b)) = 2 ^ 32 - 1 \<and>
            (\<forall>p d bn.
               lookup (bufs (bunpin b st)) (buckets (bunpin b st) ! unat (BUFMAP_HASH d bn)) d bn = None
               \<longrightarrow> buf_of (bget_slow p d bn (bunpin b st)) \<noteq> Some b) \<and>
            refcnt (bufs (bpin b (bunpin b st)) ! b) = 0 \<and>
            (\<forall>p d bn.
               lookup (bufs (bunpin b st)) (buckets (bunpin b st) ! unat (BUFMAP_HASH d bn)) d bn = Some b
               \<longrightarrow> buf_of (bget p d bn (bunpin b st)) = Some b \<and>
                   refcnt (bufs (state_of (bget p d bn (bunpin b st))) ! b) = 0 \<and>
                   buf_of (bget_slow p d bn (bunpin b st)) = Some b \<and>
                   refcnt (bufs (state_of (bget_slow p d bn (bunpin b st))) ! b) = 0))"
proof (rule conjI)
  show dec: "refcnt (bufs (bunpin b st) ! b) = refcnt (bufs st ! b) - 1"
    using b by simp
  show "refcnt (bufs st ! b) = 0 \<longrightarrow>
            unat (refcnt (bufs (bunpin b st) ! b)) = 2 ^ 32 - 1 \<and>
            (\<forall>p d bn.
               lookup (bufs (bunpin b st)) (buckets (bunpin b st) ! unat (BUFMAP_HASH d bn)) d bn = None
               \<longrightarrow> buf_of (bget_slow p d bn (bunpin b st)) \<noteq> Some b) \<and>
            refcnt (bufs (bpin b (bunpin b st)) ! b) = 0 \<and>
            (\<forall>p d bn.
               lookup (bufs (bunpin b st)) (buckets (bunpin b st) ! unat (BUFMAP_HASH d bn)) d bn = Some b
               \<longrightarrow> buf_of (bget p d bn (bunpin b st)) = Some b \<and>
                   refcnt (bufs (state_of (bget p d bn (bunpin b st))) ! b) = 0 \<and>
                   buf_of (bget_slow p d bn (bunpin b st)) = Some b \<and>
                   refcnt (bufs (state_of (bget_slow p d bn (bunpin b st))) ! b) = 0)"
  proof
    assume z: "refcnt (bufs st ! b) = 0"
    have wrap: "unat (refcnt (bufs (bunpin b st) ! b)) = 2 ^ 32 - 1"
      unfolding dec z by (simp add: unat_minus_one_uint)
    have pin: "refcnt (bufs (bpin b (bunpin b st)) ! b) = 0"
      using b z by simp
    have b': "b < length (bufs (bunpin b st))" using b by simp
    have undo: "refcnt (bufs (bunpin b st) ! b) + 1 = 0" unfolding dec z by simp
    have nomiss: "\<forall>p d bn.
               lookup (bufs (bunpin b st)) (buckets (bunpin b st) ! unat (BUFMAP_HASH d bn)) d bn = None
               \<longrightarrow> buf_of (bget_slow p d bn (bunpin b st)) \<noteq> Some b"
    proof (intro allI impI)
      fix p d bn
      assume miss: "lookup (bufs (bunpin b st)) (buckets (bunpin b st) ! unat (BUFMAP_HASH d bn)) d bn = None"
      show "buf_of (bget_slow p d bn (bunpin b st)) \<noteq> Some b"
      proof
        assume "buf_of (bget_slow p d bn (bunpin b st)) = Some b"
        from bget_slow_evict_result [OF miss this] obtain pr hb st2 where
          "scan_buckets [0..<NBUCKET] None (- 1) (acquire BcacheLock (bunpin b st)) = (Some (pr, b), hb, st2)"
          by blast
        from scan_buckets_Some [OF this] have "refcnt (bufs (bunpin b st) ! b) = 0" by auto
        with dec z show False by simp
      qed
    qed
    have hits: "\<forall>p d bn.
               lookup (bufs (bunpin b st)) (buckets (bunpin b st) ! unat (BUFMAP_HASH d bn)) d bn = Some b
               \<longrightarrow> buf_of (bget p d bn (bunpin b st)) = Some b \<and>
                   refcnt (bufs (state_of (bget p d bn (bunpin b st))) ! b) = 0 \<and>
                   buf_of (bget_slow p d bn (bunpin b st)) = Some b \<and>
                   refcnt (bufs (state_of (bget_slow p d bn (bunpin b st))) ! b) = 0"
    proof (intro allI impI)
      fix p d bn
      assume hit: "lookup (bufs (bunpin b st)) (buckets (bunpin b st) ! unat (BUFMAP_HASH d bn)) d bn = Some b"
      have fast: "bget p d bn (bunpin b st) =
          acquiresleep p b
              (release (BucketLock (unat (BUFMAP_HASH d bn)))
                 (touch b (acquire (BucketLock (unat (BUFMAP_HASH d bn))) (bunpin b st))))"
        by (simp add: bget_def bget_fast_hit [OF hit])
      note slow = bget_slow_hit [OF hit, of p]
      have 1: "buf_of (bget p d bn (bunpin b st)) = Some b" unfolding fast by simp
      have 2: "refcnt (bufs (state_of (bget p d bn (bunpin b st))) ! b) = 0"
        unfolding fast hit_refcnt(1) [OF b'] by (rule undo)
      have 3: "buf_of (bget_slow p d bn (bunpin b st)) = Some b" unfolding slow by simp
      have 4: "refcnt (bufs (state_of (bget_slow p d bn (bunpin b st))) ! b) = 0"
        unfolding slow hit_refcnt(2) [OF b'] by (rule undo)
      from 1 2 3 4
      show "buf_of (bget p d bn (bunpin b st)) = Some b \<and>
            refcnt (bufs (state_of (bget p d bn (bunpin b st))) ! b) = 0 \<and>
            buf_of (bget_slow p d bn (bunpin b st)) = Some b \<and>
            refcnt (bufs (state_of (bget_slow p d bn (bunpin b st))) ! b) = 0"
        by (intro conjI)
    qed
    from wrap nomiss pin hits
    show "unat (refcnt (bufs (bunpin b st) ! b)) = 2 ^ 32 - 1 \<and>
            (\<forall>p d bn.
               lookup (bufs (bunpin b st)) (buckets (bunpin b st) ! unat (BUFMAP_HASH d bn)) d bn = None
               \<longrightarrow> buf_of (bget_slow p d bn (bunpin b st)) \<noteq> Some b) \<and>
            refcnt (bufs (bpin b (bunpin b st)) ! b) = 0 \<and>
            (\<forall>p d bn.
               lookup (bufs (bunpin b st)) (buckets (bunpin b st) ! unat (BUFMAP_HASH d bn)) d bn = Some b
               \<longrightarrow> buf_of (bget p d bn (bunpin b st)) = Some b \<and>
                   refcnt (bufs (state_of (bget p d bn (bunpin b st))) ! b) = 0 \<and>
                   buf_of (bget_slow p d bn (bunpin b st)) = Some b \<and>
                   refcnt (bufs (state_of (bget_slow p d bn (bunpin b st))) ! b) = 0)"
      by (intro conjI)
  qed
qed

text \<open>
  The witness has the fresh cache of one buffer, for the wrap, the miss and the
  \<^verbatim>\<open>bpin\<close>, and the cache in which process 7 has read block \<open>(1, 1)\<close> into buffer 0
  and released it, for the lookups that find the key.
\<close>

theorem bunpin_wraps_witness:
  "refcnt (bufs (bunpin 0 (binit 1 0)) ! 0) = 4294967295 \<and>
   unat (refcnt (bufs (bunpin 0 (binit 1 0)) ! 0)) = 2 ^ 32 - 1 \<and>
   buf_of (bget_slow 7 1 1 (bunpin 0 (binit 1 0))) \<noteq> Some 0 \<and>
   refcnt (bufs (bpin 0 (bunpin 0 (binit 1 0))) ! 0) = 0 \<and>
   refcnt (bufs (run [Bread 7 1 1, Brelse 7 0] (binit 1 0)) ! 0) = 0 \<and>
   refcnt (bufs (bunpin 0 (run [Bread 7 1 1, Brelse 7 0] (binit 1 0))) ! 0) = 4294967295 \<and>
   buf_of (bget 8 1 1 (bunpin 0 (run [Bread 7 1 1, Brelse 7 0] (binit 1 0)))) = Some 0 \<and>
   refcnt (bufs (state_of (bget 8 1 1 (bunpin 0 (run [Bread 7 1 1, Brelse 7 0] (binit 1 0))))) ! 0) = 0 \<and>
   buf_of (bget_slow 8 1 1 (bunpin 0 (run [Bread 7 1 1, Brelse 7 0] (binit 1 0)))) = Some 0 \<and>
   refcnt (bufs (state_of (bget_slow 8 1 1 (bunpin 0 (run [Bread 7 1 1, Brelse 7 0] (binit 1 0))))) ! 0) = 0"
proof -
  let ?st = "run [Bread 7 1 1, Brelse 7 0] (binit 1 0)"
  have b: "0 < length (bufs (binit 1 0))" by simp
  have z: "refcnt (bufs (binit 1 0) ! 0) = 0" by simp
  have h: "unat (BUFMAP_HASH 1 1) = 9" by (simp add: BUFMAP_HASH_def)
  have miss: "lookup (bufs (bunpin 0 (binit 1 0)))
                (buckets (bunpin 0 (binit 1 0)) ! unat (BUFMAP_HASH 1 1)) 1 1 = None"
    by (simp add: h binit_bucket NBUCKET_def lookup_def)
  from bunpin_wraps [OF b] z
  have fresh: "refcnt (bufs (bunpin 0 (binit 1 0)) ! 0) = 0 - 1"
    "unat (refcnt (bufs (bunpin 0 (binit 1 0)) ! 0)) = 2 ^ 32 - 1"
    "\<forall>p d bn.
       lookup (bufs (bunpin 0 (binit 1 0))) (buckets (bunpin 0 (binit 1 0)) ! unat (BUFMAP_HASH d bn)) d bn = None
       \<longrightarrow> buf_of (bget_slow p d bn (bunpin 0 (binit 1 0))) \<noteq> Some 0"
    "refcnt (bufs (bpin 0 (bunpin 0 (binit 1 0))) ! 0) = 0"
    by metis+
  have b2: "0 < length (bufs ?st)" by code_simp
  have z2: "refcnt (bufs ?st ! 0) = 0" by code_simp
  have hit: "lookup (bufs (bunpin 0 ?st)) (buckets (bunpin 0 ?st) ! unat (BUFMAP_HASH 1 1)) 1 1 = Some 0"
    by code_simp
  from bunpin_wraps [OF b2] z2
  have used: "refcnt (bufs (bunpin 0 ?st) ! 0) = 0 - 1"
    "\<forall>p d bn.
       lookup (bufs (bunpin 0 ?st)) (buckets (bunpin 0 ?st) ! unat (BUFMAP_HASH d bn)) d bn = Some 0
       \<longrightarrow> buf_of (bget p d bn (bunpin 0 ?st)) = Some 0 \<and>
           refcnt (bufs (state_of (bget p d bn (bunpin 0 ?st))) ! 0) = 0 \<and>
           buf_of (bget_slow p d bn (bunpin 0 ?st)) = Some 0 \<and>
           refcnt (bufs (state_of (bget_slow p d bn (bunpin 0 ?st))) ! 0) = 0"
    by metis+
  from used(2) hit
  have hits: "buf_of (bget 8 1 1 (bunpin 0 ?st)) = Some 0 \<and>
           refcnt (bufs (state_of (bget 8 1 1 (bunpin 0 ?st))) ! 0) = 0 \<and>
           buf_of (bget_slow 8 1 1 (bunpin 0 ?st)) = Some 0 \<and>
           refcnt (bufs (state_of (bget_slow 8 1 1 (bunpin 0 ?st))) ! 0) = 0"
    by blast
  have m1: "(0 :: uint) - 1 = 4294967295" by simp
  from fresh(1,2,4) fresh(3) miss z2 used(1) hits show ?thesis
    unfolding m1 by blast
qed

text \<open>
  The claim as worded fails: after \<^verbatim>\<open>bunpin\<close> on an unreferenced buffer and one
  \<^verbatim>\<open>bpin\<close>, the count is 0 again and the next miss evicts the buffer. A lookup that
  finds the key does the same: after it the count is 0 while process 8 holds the buffer,
  and the miss of process 9 takes the buffer away from it.
\<close>

theorem unpinned_slot_evictable_again:
  "refcnt (bufs (binit 1 0) ! 0) = 0 \<and>
   refcnt (bufs (bunpin 0 (binit 1 0)) ! 0) = 4294967295 \<and>
   refcnt (bufs (bpin 0 (bunpin 0 (binit 1 0))) ! 0) = 0 \<and>
   buf_of (bget 7 1 1 (bpin 0 (bunpin 0 (binit 1 0)))) = Some 0 \<and>
   returned (bget 7 1 1 (bpin 0 (bunpin 0 (binit 1 0)))) \<and>
   blockno (bufs (state_of (bget 7 1 1 (bpin 0 (bunpin 0 (binit 1 0))))) ! 0) = 1 \<and>
   refcnt (bufs (bunpin 0 (run [Bread 7 1 1, Brelse 7 0] (binit 1 0))) ! 0) = 4294967295 \<and>
   refcnt (bufs (state_of (bget 8 1 1 (bunpin 0 (run [Bread 7 1 1, Brelse 7 0] (binit 1 0))))) ! 0) = 0 \<and>
   lock (bufs (state_of (bget 8 1 1 (bunpin 0 (run [Bread 7 1 1, Brelse 7 0] (binit 1 0))))) ! 0) = Some 8 \<and>
   buf_of (bget 9 1 2 (state_of (bget 8 1 1 (bunpin 0 (run [Bread 7 1 1, Brelse 7 0] (binit 1 0))))))
     = Some 0 \<and>
   blockno (bufs (state_of (bget 9 1 2
     (state_of (bget 8 1 1 (bunpin 0 (run [Bread 7 1 1, Brelse 7 0] (binit 1 0))))))) ! 0) = 2"
  by code_simp

section \<open>One buffer for a key\<close>

lemma keys_simps [simp]:
  "length (keys st) = length (bufs st)"
  "b < length (bufs st) \<Longrightarrow> keys st ! b = (dev (bufs st ! b), blockno (bufs st ! b))"
  by (simp_all add: keys_def)

lemma keys_eqD:
  assumes "keys st' = keys st"
  shows "length (bufs st') = length (bufs st)"
    and "b < length (bufs st) \<Longrightarrow> dev (bufs st' ! b) = dev (bufs st ! b)"
    and "b < length (bufs st) \<Longrightarrow> blockno (bufs st' ! b) = blockno (bufs st ! b)"
proof -
  show l: "length (bufs st') = length (bufs st)"
    using assms by (metis keys_simps(1))
  assume b: "b < length (bufs st)"
  then have "keys st' ! b = keys st ! b" using assms by simp
  with b l show "dev (bufs st' ! b) = dev (bufs st ! b)" "blockno (bufs st' ! b) = blockno (bufs st ! b)"
    by simp_all
qed

text \<open>The invariant only reads the keys and the chains.\<close>

lemma cache_inv_cong:
  assumes k: "keys st' = keys st" and bk: "buckets st' = buckets st" and inv: "cache_inv st"
  shows "cache_inv st'"
proof -
  note l = keys_eqD(1) [OF k] and d = keys_eqD(2) [OF k] and bn = keys_eqD(3) [OF k]
  from inv have wf: "chains_ok st" and cov: "covered st" and hs: "hashed_ok st"
    and un: "unique_keys st"
    by (simp_all add: cache_inv_def)
  have "chains_ok st'" using wf by (simp add: chains_ok_def bk l)
  moreover have "covered st'" using cov by (simp add: covered_def bk l)
  moreover have "hashed_ok st'"
    unfolding hashed_ok_def bk
  proof (intro allI impI ballI)
    fix i b assume i: "i < NBUCKET" and b: "b \<in> set (buckets st ! i)"
    with wf have "b < length (bufs st)" by (auto dest: chains_okD(3))
    with hs i b show "unat (BUFMAP_HASH (dev (bufs st' ! b)) (blockno (bufs st' ! b))) = i"
      by (simp add: d bn hashed_ok_def)
  qed
  moreover have "unique_keys st'" using un by (simp add: unique_keys_def k l)
  ultimately show ?thesis by (simp add: cache_inv_def)
qed

lemma keys_update_same:
  "dev y = dev (bufs st ! b) \<Longrightarrow> blockno y = blockno (bufs st ! b) \<Longrightarrow>
   bufs st' = (bufs st)[b := y] \<Longrightarrow> keys st' = keys st"
proof (cases "b < length (bufs st)")
  case True
  assume "dev y = dev (bufs st ! b)" "blockno y = blockno (bufs st ! b)" "bufs st' = (bufs st)[b := y]"
  with True show ?thesis by (simp add: keys_def map_update list_update_same_conv)
next
  case False
  assume "bufs st' = (bufs st)[b := y]"
  with False show ?thesis by (simp add: keys_def list_update_beyond)
qed

lemma keys_bufs_eq: "bufs st' = bufs st \<Longrightarrow> keys st' = keys st"
  by (simp add: keys_def)

subsection \<open>Calls that leave keys and chains alone\<close>

lemma acquire_release_keys [simp]:
  "keys (acquire l st) = keys st" "keys (release l st) = keys st"
  by (simp_all add: keys_def)

lemma touch_keys [simp]: "keys (touch b st) = keys st"
  by (rule keys_update_same [of _ st b]) simp_all

lemma acquiresleep_keys [simp]: "keys (state_of (acquiresleep p b st)) = keys st"
proof (cases "lock (bufs st ! b) = None")
  case True
  show ?thesis
    by (rule keys_update_same [of "(bufs st ! b)\<lparr>lock := Some p\<rparr>" st b])
       (simp_all add: acquiresleep_cases True)
next
  case False
  then show ?thesis by (auto simp: acquiresleep_cases keys_def)
qed

lemma virtio_disk_rw_keys [simp]: "keys (virtio_disk_rw b w st) = keys st"
proof (cases w)
  case True
  then show ?thesis by (simp add: virtio_disk_rw_def Let_def keys_def)
next
  case False
  show ?thesis
    by (rule keys_update_same
          [of "(bufs st ! b)\<lparr>data := disk st (dev (bufs st ! b), blockno (bufs st ! b))\<rparr>" st b])
       (simp_all add: virtio_disk_rw_def Let_def False)
qed

lemma bread_fill_keys [simp]: "keys (bread_fill b st) = keys st"
proof (cases "valid (bufs st ! b)")
  case True
  then show ?thesis by (simp add: bread_fill_def)
next
  case False
  let ?st1 = "virtio_disk_rw b False st"
  have "bread_fill b st = ?st1\<lparr>bufs := (bufs ?st1)[b := (bufs ?st1 ! b)\<lparr>valid := True\<rparr>]\<rparr>"
    using False by (simp only: bread_fill_def Let_def if_True not_False_eq_True)
  then have "bufs (bread_fill b st) = (bufs ?st1)[b := (bufs ?st1 ! b)\<lparr>valid := True\<rparr>]"
    by simp
  from keys_update_same [OF _ _ this] have "keys (bread_fill b st) = keys ?st1" by simp
  then show ?thesis by simp
qed

lemma bread_fill_buckets [simp]: "buckets (bread_fill b st) = buckets st"
  by (simp add: bread_fill_def virtio_disk_rw_def Let_def)

lemma bpin_keys [simp]: "keys (bpin b st) = keys st"
  by (rule keys_update_same [of _ st b]) simp_all

lemma bunpin_keys [simp]: "keys (bunpin b st) = keys st"
  by (rule keys_update_same [of _ st b]) simp_all

lemma bwrite_keeps:
  "bwrite p b st = Inr st' \<Longrightarrow> keys st' = keys st \<and> buckets st' = buckets st"
  by (auto simp: bwrite_def virtio_disk_rw_def Let_def keys_def split: if_splits)

lemma brelse_keeps:
  assumes "brelse p b st = Inr st'"
  shows "keys st' = keys st \<and> buckets st' = buckets st"
proof (cases "b < length (bufs st)")
  case True
  from assms have h: "holdingsleep p (bufs st ! b)"
    by (auto simp: brelse_def split: if_splits)
  from assms brelse_held [OF h True]
  have "bufs st' = (bufs st)[b := (bufs st ! b)
                 \<lparr>lock := None, refcnt := refcnt (bufs st ! b) - 1,
                   timestamp := (if refcnt (bufs st ! b) - 1 = 0 then ticks st
                                 else timestamp (bufs st ! b))\<rparr>]"
    and bk: "buckets st' = buckets st"
    by auto
  from keys_update_same [OF _ _ this(1)] bk show ?thesis by simp
next
  case False
  with assms show ?thesis
    by (auto simp: brelse_def Let_def releasesleep_def keys_def list_update_beyond split: if_splits)
qed

lemma resume_keeps:
  "resume r = Inr st' \<Longrightarrow> keys st' = keys (state_of r) \<and> buckets st' = buckets (state_of r)"
  by (cases r) auto

lemma bget_fast_keeps:
  "(bget_fast p d bn st = Inl st1 \<longrightarrow>
      lookup (bufs st) (buckets st ! unat (BUFMAP_HASH d bn)) d bn = None \<and>
      bufs st1 = bufs st \<and> buckets st1 = buckets st \<and> ticks st1 = ticks st) \<and>
   (bget_fast p d bn st = Inr r \<longrightarrow> keys (state_of r) = keys st \<and> buckets (state_of r) = buckets st)"
  by (cases "lookup (bufs st) (buckets st ! unat (BUFMAP_HASH d bn)) d bn")
     (auto simp: bget_fast_def Let_def acquiresleep_frame)

subsection \<open>The eviction keeps the invariant\<close>

lemma relinked_set:
  assumes wf: "chains_ok st"
    and h: "h < NBUCKET" "b \<in> set (buckets st ! h)"
    and k: "k < NBUCKET"
    and i: "i < NBUCKET"
  shows "set ((if h = k then buckets st
               else (buckets st)[h := remove1 b (buckets st ! h), k := b # (buckets st ! k)]) ! i) =
         (if i = k then insert b (set (buckets st ! i)) else set (buckets st ! i) - {b})"
proof -
  have len: "length (buckets st) = NBUCKET" using wf by (rule chains_okD)
  have dist: "distinct (buckets st ! h)" using wf h by (auto dest: chains_okD)
  have other: "j < NBUCKET \<Longrightarrow> j \<noteq> h \<Longrightarrow> b \<notin> set (buckets st ! j)" for j
    using chains_okD(4) [OF wf h(1) _ h(2)] by blast
  show ?thesis
  proof (cases "h = k")
    case True
    with h other [OF i] show ?thesis by auto
  next
    case False
    show ?thesis
    proof (cases "i = k")
      case True
      with False len k show ?thesis by simp
    next
      case ik: False
      show ?thesis
      proof (cases "i = h")
        case True
        with False ik len h dist show ?thesis by simp
      next
        case ih: False
        with False ik len other [OF i] show ?thesis by simp
      qed
    qed
  qed
qed

lemma relinked_distinct:
  assumes wf: "chains_ok st"
    and h: "h < NBUCKET" "b \<in> set (buckets st ! h)"
    and k: "k < NBUCKET"
    and i: "i < NBUCKET"
  shows "distinct ((if h = k then buckets st
               else (buckets st)[h := remove1 b (buckets st ! h), k := b # (buckets st ! k)]) ! i)"
proof -
  have len: "length (buckets st) = NBUCKET" using wf by (rule chains_okD)
  have dist: "distinct (buckets st ! j)" if "j < NBUCKET" for j
    using wf that by (auto dest: chains_okD)
  have other: "j < NBUCKET \<Longrightarrow> j \<noteq> h \<Longrightarrow> b \<notin> set (buckets st ! j)" for j
    using chains_okD(4) [OF wf h(1) _ h(2)] by blast
  show ?thesis
  proof (cases "h = k")
    case True
    with dist [OF i] show ?thesis by simp
  next
    case False
    show ?thesis
    proof (cases "i = k")
      case True
      with False len k dist [OF k] other [OF k] show ?thesis by simp
    next
      case ik: False
      show ?thesis
      proof (cases "i = h")
        case True
        with False ik len h dist [OF h(1)] show ?thesis by simp
      next
        case ih: False
        with False ik len dist [OF i] show ?thesis by simp
      qed
    qed
  qed
qed

text \<open>A miss on the target chain means that no buffer of the pool has the key.\<close>

lemma miss_no_holder:
  assumes inv: "cache_inv st"
    and miss: "lookup (bufs st) (buckets st ! unat (BUFMAP_HASH d bn)) d bn = None"
    and c: "c < length (bufs st)"
  shows "\<not> (dev (bufs st ! c) = d \<and> blockno (bufs st ! c) = bn)"
proof
  assume key: "dev (bufs st ! c) = d \<and> blockno (bufs st ! c) = bn"
  from inv have cov: "covered st" and hs: "hashed_ok st" by (simp_all add: cache_inv_def)
  from cov c obtain i where i: "i < NBUCKET" "c \<in> set (buckets st ! i)"
    by (auto simp: covered_def)
  with hs key have "unat (BUFMAP_HASH d bn) = i" by (auto simp: hashed_ok_def)
  with i miss key show False by (auto simp: lookup_None)
qed

lemma evict_inv:
  assumes inv: "cache_inv st"
    and miss: "lookup (bufs st) (buckets st ! unat (BUFMAP_HASH d bn)) d bn = None"
    and r: "buf_of (bget_slow p d bn st) = Some b"
  shows "cache_inv (state_of (bget_slow p d bn st))"
    and "b < length (bufs st)"
    and "length (bufs (state_of (bget_slow p d bn st))) = length (bufs st)"
    and "b \<in> set (buckets (state_of (bget_slow p d bn st)) ! unat (BUFMAP_HASH d bn))"
    and "\<And>c. c < length (bufs st) \<Longrightarrow>
          (dev (bufs (state_of (bget_slow p d bn st)) ! c) = d \<and>
           blockno (bufs (state_of (bget_slow p d bn st)) ! c) = bn) = (c = b)"
proof -
  let ?st' = "state_of (bget_slow p d bn st)"
  let ?k = "unat (BUFMAP_HASH d bn)"
  from inv have wf: "chains_ok st" and cov: "covered st" and hs: "hashed_ok st"
    and un: "unique_keys st"
    by (simp_all add: cache_inv_def)
  have k: "?k < NBUCKET" by (rule hash_bound)
  obtain h where
    h: "h < NBUCKET" "b \<in> set (buckets st ! h)" "refcnt (bufs st ! b) = 0" "b < length (bufs st)"
    and bk: "buckets ?st' =
             (if h = ?k then buckets st
              else (buckets st)[h := remove1 b (buckets st ! h), ?k := b # (buckets st ! ?k)])"
    and bf: "bufs ?st' =
             (bufs st)[b := (if lock (bufs st ! b) = None
                then (bufs st ! b)\<lparr>dev := d, blockno := bn, valid := False, refcnt := 1,
                                    timestamp := ticks st, lock := Some p\<rparr>
                else (bufs st ! b)\<lparr>dev := d, blockno := bn, valid := False, refcnt := 1,
                                    timestamp := ticks st\<rparr>)]"
    by (rule bget_slow_evict_state [OF wf miss r])
  show b: "b < length (bufs st)" by (rule h)
  show len: "length (bufs ?st') = length (bufs st)" by (simp add: bf)
  have lenb: "length (buckets ?st') = NBUCKET"
    using chains_okD(1) [OF wf] by (simp add: bk)
  have sets: "set (buckets ?st' ! i) =
                (if i = ?k then insert b (set (buckets st ! i)) else set (buckets st ! i) - {b})"
    if "i < NBUCKET" for i
    unfolding bk by (rule relinked_set [OF wf h(1,2) k that])
  have dist: "distinct (buckets ?st' ! i)" if "i < NBUCKET" for i
    unfolding bk by (rule relinked_distinct [OF wf h(1,2) k that])
  have keyb: "dev (bufs ?st' ! b) = d" "blockno (bufs ?st' ! b) = bn"
    using b by (simp_all add: bf)
  have keyc: "bufs ?st' ! c = bufs st ! c" if "c \<noteq> b" for c
    using that by (simp add: bf)
  show inb: "b \<in> set (buckets ?st' ! ?k)" using sets [OF k] by simp
  show only: "(dev (bufs ?st' ! c) = d \<and> blockno (bufs ?st' ! c) = bn) = (c = b)"
    if c: "c < length (bufs st)" for c
  proof (cases "c = b")
    case True
    with keyb show ?thesis by simp
  next
    case False
    with miss_no_holder [OF inv miss c] keyc [OF False] show ?thesis by simp
  qed
  have "chains_ok ?st'"
    unfolding chains_ok_def
  proof (intro conjI allI impI ballI)
    show "length (buckets ?st') = NBUCKET" by (rule lenb)
  next
    fix i assume "i < NBUCKET"
    then show "distinct (buckets ?st' ! i)" by (rule dist)
  next
    fix i c assume i: "i < NBUCKET" and c: "c \<in> set (buckets ?st' ! i)"
    show "c < length (bufs ?st')"
    proof (cases "c = b")
      case True
      with b len show ?thesis by simp
    next
      case False
      with c sets [OF i] have "c \<in> set (buckets st ! i)" by (auto split: if_splits)
      with chains_okD(3) [OF wf i] len show ?thesis by simp
    qed
  next
    fix i c j
    assume i: "i < NBUCKET" and c: "c \<in> set (buckets ?st' ! i)"
      and j: "j < NBUCKET" and c': "c \<in> set (buckets ?st' ! j)"
    show "j = i"
    proof (cases "c = b")
      case True
      from c True sets [OF i] have "i = ?k" by (auto split: if_splits)
      moreover from c' True sets [OF j] have "j = ?k" by (auto split: if_splits)
      ultimately show ?thesis by simp
    next
      case False
      from c False sets [OF i] have "c \<in> set (buckets st ! i)" by (auto split: if_splits)
      moreover from c' False sets [OF j] have "c \<in> set (buckets st ! j)" by (auto split: if_splits)
      ultimately show ?thesis using chains_okD(4) [OF wf i j] by blast
    qed
  qed
  moreover have "covered ?st'"
    unfolding covered_def
  proof (intro allI impI)
    fix c assume "c < length (bufs ?st')"
    then have c: "c < length (bufs st)" by (simp add: len)
    show "\<exists>i<NBUCKET. c \<in> set (buckets ?st' ! i)"
    proof (cases "c = b")
      case True
      with inb k show ?thesis by blast
    next
      case False
      from cov c obtain i where i: "i < NBUCKET" "c \<in> set (buckets st ! i)"
        by (auto simp: covered_def)
      with False sets [OF i(1)] have "c \<in> set (buckets ?st' ! i)" by auto
      with i show ?thesis by blast
    qed
  qed
  moreover have "hashed_ok ?st'"
    unfolding hashed_ok_def
  proof (intro allI impI ballI)
    fix i c assume i: "i < NBUCKET" and c: "c \<in> set (buckets ?st' ! i)"
    show "unat (BUFMAP_HASH (dev (bufs ?st' ! c)) (blockno (bufs ?st' ! c))) = i"
    proof (cases "c = b")
      case True
      from c True sets [OF i] have "i = ?k" by (auto split: if_splits)
      with True keyb show ?thesis by simp
    next
      case False
      from c False sets [OF i] have "c \<in> set (buckets st ! i)" by (auto split: if_splits)
      with hs i keyc [OF False] show ?thesis by (simp add: hashed_ok_def)
    qed
  qed
  moreover have "unique_keys ?st'"
    unfolding unique_keys_def
  proof (intro allI impI)
    fix b1 b2
    assume "b1 < length (bufs ?st')" "b2 < length (bufs ?st')"
      and e: "keys ?st' ! b1 = keys ?st' ! b2 \<and> keys ?st' ! b1 \<noteq> (0, 0)"
    then have b1: "b1 < length (bufs st)" and b2: "b2 < length (bufs st)"
      by (simp_all add: len)
    from e b1 b2 len have e': "dev (bufs ?st' ! b1) = dev (bufs ?st' ! b2)"
      "blockno (bufs ?st' ! b1) = blockno (bufs ?st' ! b2)"
      "(dev (bufs ?st' ! b1), blockno (bufs ?st' ! b1)) \<noteq> (0, 0)"
      by auto
    show "b1 = b2"
    proof (cases "b1 = b")
      case True
      with e' keyb only [OF b2] show ?thesis by simp
    next
      case n1: False
      show ?thesis
      proof (cases "b2 = b")
        case True
        with e' keyb only [OF b1] show ?thesis by simp
      next
        case n2: False
        from e' keyc [OF n1] keyc [OF n2] b1 b2
        have "keys st ! b1 = keys st ! b2 \<and> keys st ! b1 \<noteq> (0, 0)" by simp
        with un b1 b2 show ?thesis unfolding unique_keys_def by blast
      qed
    qed
  qed
  ultimately show "cache_inv ?st'" by (simp add: cache_inv_def)
qed

subsection \<open>Every call keeps the invariant\<close>

lemma bget_slow_inv:
  assumes inv: "cache_inv st"
  shows "cache_inv (state_of (bget_slow p d bn st)) \<and>
         length (bufs (state_of (bget_slow p d bn st))) = length (bufs st)"
proof (cases "lookup (bufs st) (buckets st ! unat (BUFMAP_HASH d bn)) d bn")
  case (Some b)
  have k: "keys (state_of (bget_slow p d bn st)) = keys st"
    and bk: "buckets (state_of (bget_slow p d bn st)) = buckets st"
    unfolding bget_slow_hit [OF Some] by (simp_all add: acquiresleep_frame)
  from cache_inv_cong [OF k bk inv] keys_eqD(1) [OF k] show ?thesis by simp
next
  case None
  show ?thesis
  proof (cases "buf_of (bget_slow p d bn st)")
    case (Some b)
    from evict_inv(1,3) [OF inv None Some] show ?thesis by simp
  next
    case no: None
    obtain bl hb st2 where
      sc: "scan_buckets [0..<NBUCKET] None (- 1) (acquire BcacheLock st) = (bl, hb, st2)"
      by (cases "scan_buckets [0..<NBUCKET] None (- 1) (acquire BcacheLock st)")
    have "bl = None"
    proof (rule ccontr)
      assume "bl \<noteq> None"
      then obtain pr c where "bl = Some (pr, c)" by (cases bl) auto
      with sc no bget_slow_evict [OF None, of pr c hb st2 p] show False by simp
    qed
    with sc have eq: "bget_slow p d bn st = Panic ''bget: no buffers'' (release BcacheLock st2)"
      by (simp add: bget_slow_exhausted [OF None])
    from scan_buckets_frame [OF sc]
    have k: "keys (state_of (bget_slow p d bn st)) = keys st"
      and bk: "buckets (state_of (bget_slow p d bn st)) = buckets st"
      unfolding eq by (simp_all add: keys_def)
    from cache_inv_cong [OF k bk inv] keys_eqD(1) [OF k] show ?thesis by simp
  qed
qed

lemma resume_inv:
  assumes "resume r = Inr st'" and "cache_inv (state_of r)"
  shows "cache_inv st' \<and> length (bufs st') = length (bufs (state_of r))"
proof -
  from resume_keeps [OF assms(1)]
  have k: "keys st' = keys (state_of r)" and bk: "buckets st' = buckets (state_of r)"
    by simp_all
  from cache_inv_cong [OF k bk assms(2)] keys_eqD(1) [OF k] show ?thesis by simp
qed

lemma bget_fast_inv:
  assumes inv: "cache_inv st"
  shows "bget_fast p d bn st = Inl st1 \<Longrightarrow> cache_inv st1 \<and> length (bufs st1) = length (bufs st)"
    and "bget_fast p d bn st = Inr r \<Longrightarrow>
           cache_inv (state_of r) \<and> length (bufs (state_of r)) = length (bufs st)"
proof -
  assume a: "bget_fast p d bn st = Inl st1"
  with bget_fast_keeps [of p d bn st st1]
  have "bufs st1 = bufs st" "buckets st1 = buckets st" by simp_all
  with cache_inv_cong [OF keys_bufs_eq _ inv, of st1] show "cache_inv st1 \<and> length (bufs st1) = length (bufs st)"
    by simp
next
  assume a: "bget_fast p d bn st = Inr r"
  with bget_fast_keeps [of p d bn st _ r]
  have k: "keys (state_of r) = keys st" and bk: "buckets (state_of r) = buckets st" by simp_all
  from cache_inv_cong [OF k bk inv] keys_eqD(1) [OF k]
  show "cache_inv (state_of r) \<and> length (bufs (state_of r)) = length (bufs st)" by simp
qed

lemma bget_inv:
  assumes inv: "cache_inv st"
  shows "cache_inv (state_of (bget p d bn st)) \<and>
         length (bufs (state_of (bget p d bn st))) = length (bufs st)"
proof (cases "bget_fast p d bn st")
  case (Inl st1)
  from bget_fast_inv(1) [OF inv Inl] bget_slow_inv [of st1 p d bn] Inl
  show ?thesis by (simp add: bget_def)
next
  case (Inr r)
  from bget_fast_inv(2) [OF inv Inr] Inr show ?thesis by (simp add: bget_def)
qed

lemma step_inv:
  assumes inv: "cache_inv st" and s: "step x st = Inr st'"
  shows "cache_inv st' \<and> length (bufs st') = length (bufs st)"
proof (cases x)
  case Tick
  with s have "keys st' = keys st" "buckets st' = buckets st" by (auto simp: keys_def)
  from cache_inv_cong [OF this inv] keys_eqD(1) [OF this(1)] show ?thesis by simp
next
  case (Bread p d bn)
  with s have "resume (bget p d bn st) = Inr st'" by simp
  from resume_inv [OF this] bget_inv [OF inv, of p d bn] show ?thesis by simp
next
  case (Fast p d bn)
  show ?thesis
  proof (cases "bget_fast p d bn st")
    case (Inl st1)
    with s Fast have "st' = st1" by simp
    with bget_fast_inv(1) [OF inv Inl] show ?thesis by simp
  next
    case (Inr r)
    with s Fast have "resume r = Inr st'" by simp
    from resume_inv [OF this] bget_fast_inv(2) [OF inv Inr] show ?thesis by simp
  qed
next
  case (Slow p d bn)
  with s have "resume (bget_slow p d bn st) = Inr st'" by simp
  from resume_inv [OF this] bget_slow_inv [OF inv, of p d bn] show ?thesis by simp
next
  case (Wakeup p b)
  with s have r: "resume (acquiresleep p b st) = Inr st'" by simp
  have "cache_inv (state_of (acquiresleep p b st))"
    by (rule cache_inv_cong [OF _ _ inv]) (simp_all add: acquiresleep_frame)
  from resume_inv [OF r this] show ?thesis by (simp add: acquiresleep_frame)
next
  case (Bwrite p b)
  with s bwrite_keeps [of p b st st']
  have "keys st' = keys st" "buckets st' = buckets st" by simp_all
  from cache_inv_cong [OF this inv] keys_eqD(1) [OF this(1)] show ?thesis by simp
next
  case (Brelse p b)
  with s brelse_keeps [of p b st st']
  have "keys st' = keys st" "buckets st' = buckets st" by simp_all
  from cache_inv_cong [OF this inv] keys_eqD(1) [OF this(1)] show ?thesis by simp
next
  case (Bpin b)
  with s have "keys st' = keys st" "buckets st' = buckets st" by auto
  from cache_inv_cong [OF this inv] keys_eqD(1) [OF this(1)] show ?thesis by simp
next
  case (Bunpin b)
  with s have "keys st' = keys st" "buckets st' = buckets st" by auto
  from cache_inv_cong [OF this inv] keys_eqD(1) [OF this(1)] show ?thesis by simp
qed

lemma run_inv:
  "cache_inv st \<Longrightarrow> cache_inv (run ops st) \<and> length (bufs (run ops st)) = length (bufs st)"
proof (induction ops arbitrary: st)
  case Nil
  then show ?case by simp
next
  case (Cons x ops)
  show ?case
  proof (cases "step x st")
    case (Inl m)
    with Cons.prems show ?thesis by simp
  next
    case (Inr st')
    from step_inv [OF Cons.prems Inr] Cons.IH [of st'] Inr show ?thesis by simp
  qed
qed

lemma cache_inv_binit: "cache_inv (binit n t)"
  by (simp add: cache_inv_def chains_ok_binit covered_binit hashed_ok_binit unique_keys_def)

subsection \<open>Holders of a key\<close>

lemma short_list:
  "distinct xs \<Longrightarrow> (\<And>x y. x \<in> set xs \<Longrightarrow> y \<in> set xs \<Longrightarrow> x = y) \<Longrightarrow> length xs \<le> 1"
proof (cases xs)
  case Nil
  then show ?thesis by simp
next
  case (Cons x ys)
  assume d: "distinct xs" and e: "\<And>x y. x \<in> set xs \<Longrightarrow> y \<in> set xs \<Longrightarrow> x = y"
  show ?thesis
  proof (cases ys)
    case Nil
    with Cons show ?thesis by simp
  next
    case (Cons y zs)
    with \<open>xs = x # ys\<close> e [of x y] d show ?thesis by simp
  qed
qed

lemma holders_unique:
  assumes un: "unique_keys st" and k: "(d, bn) \<noteq> (0, 0)"
  shows "length (holders st d bn) \<le> 1"
proof (rule short_list)
  show "distinct (holders st d bn)" by (simp add: holders_def)
next
  fix x y assume "x \<in> set (holders st d bn)" "y \<in> set (holders st d bn)"
  then have x: "x < length (bufs st)" "keys st ! x = (d, bn)"
    and y: "y < length (bufs st)" "keys st ! y = (d, bn)"
    by (simp_all add: holders_def)
  with un k show "x = y" unfolding unique_keys_def by metis
qed

lemma filter_only:
  "b < n \<Longrightarrow> filter (\<lambda>c. c = b) [0..<n] = [b]"
proof (induction n)
  case 0
  then show ?case by simp
next
  case (Suc n)
  show ?case
  proof (cases "b = n")
    case True
    have "filter (\<lambda>c. c = n) [0..<n] = []" by (simp add: filter_empty_conv)
    with True show ?thesis by simp
  next
    case False
    with Suc show ?thesis by simp
  qed
qed

lemma holders_single:
  assumes b: "b < length (bufs st)"
    and only: "\<And>c. c < length (bufs st) \<Longrightarrow>
                 (dev (bufs st ! c) = d \<and> blockno (bufs st ! c) = bn) = (c = b)"
  shows "holders st d bn = [b]"
proof -
  have "holders st d bn = filter (\<lambda>c. c = b) [0..<length (bufs st)]"
    unfolding holders_def by (rule filter_cong) (simp_all add: only)
  with filter_only [OF b] show ?thesis by simp
qed

lemma holders_cong:
  "keys st' = keys st \<Longrightarrow> holders st' d bn = holders st d bn"
proof -
  assume k: "keys st' = keys st"
  have "holders st' d bn = filter (\<lambda>c. keys st' ! c = (d, bn)) [0..<length (bufs st')]"
    unfolding holders_def by (rule filter_cong) simp_all
  also have "\<dots> = filter (\<lambda>c. keys st ! c = (d, bn)) [0..<length (bufs st)]"
    by (simp add: k keys_eqD(1) [OF k])
  also have "\<dots> = holders st d bn"
    unfolding holders_def by (rule filter_cong) simp_all
  finally show ?thesis .
qed

lemma lookup_unique:
  assumes b: "b \<in> set chain" "dev (bs ! b) = d" "blockno (bs ! b) = bn"
    and only: "\<And>c. c \<in> set chain \<Longrightarrow> dev (bs ! c) = d \<and> blockno (bs ! c) = bn \<Longrightarrow> c = b"
  shows "lookup bs chain d bn = Some b"
proof (cases "lookup bs chain d bn")
  case None
  with b show ?thesis by (auto simp: lookup_None)
next
  case (Some c)
  from lookup_Some [OF Some] only [of c] Some show ?thesis by simp
qed

subsection \<open>Two lookups of an uncached key\<close>

lemma second_lookup_hits:
  assumes inv: "cache_inv st"
    and miss: "lookup (bufs st) (buckets st ! unat (BUFMAP_HASH d bn)) d bn = None"
    and r: "buf_of (bget_slow p1 d bn st) = Some b"
  shows "buf_of (bget_slow p2 d bn (state_of (bget_slow p1 d bn st))) = Some b"
    and "holders (state_of (bget_slow p2 d bn (state_of (bget_slow p1 d bn st)))) d bn = [b]"
    and "refcnt (bufs (state_of (bget_slow p2 d bn (state_of (bget_slow p1 d bn st)))) ! b) = 2"
proof -
  let ?st3 = "state_of (bget_slow p1 d bn st)"
  let ?k = "unat (BUFMAP_HASH d bn)"
  note ev = evict_inv [OF inv miss r]
  from ev(1) have wf3: "chains_ok ?st3" by (simp add: cache_inv_def)
  have b3: "b < length (bufs ?st3)" using ev(2,3) by simp
  have keyb: "dev (bufs ?st3 ! b) = d" "blockno (bufs ?st3 ! b) = bn"
    using ev(5) [OF ev(2)] by simp_all
  have hit: "lookup (bufs ?st3) (buckets ?st3 ! ?k) d bn = Some b"
  proof (rule lookup_unique [OF ev(4) keyb])
    fix c assume c: "c \<in> set (buckets ?st3 ! ?k)"
      and key: "dev (bufs ?st3 ! c) = d \<and> blockno (bufs ?st3 ! c) = bn"
    from chains_okD(3) [OF wf3 hash_bound c] ev(3) have "c < length (bufs st)" by simp
    from ev(5) [OF this] key show "c = b" by simp
  qed
  note eq = bget_slow_hit [OF hit, of p2]
  show "buf_of (bget_slow p2 d bn ?st3) = Some b" unfolding eq by simp
  have k4: "keys (state_of (bget_slow p2 d bn ?st3)) = keys ?st3"
    unfolding eq by simp
  have "holders ?st3 d bn = [b]"
    by (rule holders_single [OF b3]) (simp add: ev(3) ev(5))
  with holders_cong [OF k4] show "holders (state_of (bget_slow p2 d bn ?st3)) d bn = [b]"
    by simp
  from inv have wf: "chains_ok st" by (simp add: cache_inv_def)
  obtain h where "h < NBUCKET" "b \<in> set (buckets st ! h)" "refcnt (bufs st ! b) = 0"
      "b < length (bufs st)"
      "buckets ?st3 =
         (if h = ?k then buckets st
          else (buckets st)[h := remove1 b (buckets st ! h), ?k := b # (buckets st ! ?k)])"
    and bf: "bufs ?st3 =
       (bufs st)[b := (if lock (bufs st ! b) = None
          then (bufs st ! b)\<lparr>dev := d, blockno := bn, valid := False, refcnt := 1,
                              timestamp := ticks st, lock := Some p1\<rparr>
          else (bufs st ! b)\<lparr>dev := d, blockno := bn, valid := False, refcnt := 1,
                              timestamp := ticks st\<rparr>)]"
    by (rule bget_slow_evict_state [OF wf miss r])
  have r3: "refcnt (bufs ?st3 ! b) = 1"
    unfolding bf using ev(2) by simp
  show "refcnt (bufs (state_of (bget_slow p2 d bn ?st3)) ! b) = 2"
    unfolding eq using b3 r3 by (simp add: acquiresleep_cases)
qed

text \<open>
  C1, as the code has it. In every state a run of calls reaches from a fresh cache, a
  key other than \<open>(0, 0)\<close> is on at most one buffer of the pool. (The key \<open>(0, 0)\<close> is on
  every buffer that has not been recycled yet: \<^verbatim>\<open>binit\<close> leaves the zero of the
  static initialisation in \<open>dev\<close> and \<open>blockno\<close>.) And when, in such a state, two lookups
  of the same key both miss under the bucket lock and the first then evicts buffer \<open>b\<close>,
  the re-check of the second finds \<open>b\<close>: the second lookup hands out \<open>b\<close> as well, \<open>b\<close> is
  the one buffer with the key, and its reference count is 2.
\<close>

theorem one_buffer_per_key:
  assumes ops: "list_all (op_ok nbuf) ops"
  shows "(\<forall>d bn. (d, bn) \<noteq> (0, 0) \<longrightarrow> length (holders (run ops (binit nbuf t)) d bn) \<le> 1) \<and>
         (\<forall>p1 p2 d bn b.
            isl (bget_fast p1 d bn (run ops (binit nbuf t))) \<and>
            isl (bget_fast p2 d bn (projl (bget_fast p1 d bn (run ops (binit nbuf t))))) \<and>
            buf_of (bget_slow p1 d bn (projl (bget_fast p2 d bn (projl (bget_fast p1 d bn (run ops (binit nbuf t))))))) = Some b \<longrightarrow>
            buf_of (bget_slow p2 d bn (state_of (bget_slow p1 d bn (projl (bget_fast p2 d bn (projl (bget_fast p1 d bn (run ops (binit nbuf t))))))))) = Some b \<and>
            holders (state_of (bget_slow p2 d bn (state_of (bget_slow p1 d bn (projl (bget_fast p2 d bn (projl (bget_fast p1 d bn (run ops (binit nbuf t)))))))))) d bn = [b] \<and>
            refcnt (bufs (state_of (bget_slow p2 d bn (state_of (bget_slow p1 d bn (projl (bget_fast p2 d bn (projl (bget_fast p1 d bn (run ops (binit nbuf t)))))))))) ! b) = 2)"
proof (rule conjI; intro allI impI)
  let ?st = "run ops (binit nbuf t)"
  have inv: "cache_inv ?st" using run_inv [OF cache_inv_binit] by blast
  fix d bn :: uint
  assume k: "(d, bn) \<noteq> (0, 0)"
  from inv have "unique_keys ?st" by (simp add: cache_inv_def)
  then show "length (holders ?st d bn) \<le> 1"
    using k by (rule holders_unique)
next
  let ?st = "run ops (binit nbuf t)"
  have inv: "cache_inv ?st" using run_inv [OF cache_inv_binit] by blast
  fix p1 p2 d bn b
  let ?st1 = "projl (bget_fast p1 d bn ?st)"
  let ?st2 = "projl (bget_fast p2 d bn ?st1)"
  assume a: "isl (bget_fast p1 d bn ?st) \<and> isl (bget_fast p2 d bn ?st1) \<and>
             buf_of (bget_slow p1 d bn ?st2) = Some b"
  then have f1: "bget_fast p1 d bn ?st = Inl ?st1" and f2: "bget_fast p2 d bn ?st1 = Inl ?st2"
    and r: "buf_of (bget_slow p1 d bn ?st2) = Some b"
    by simp_all
  from bget_fast_inv(1) [OF inv f1] have inv1: "cache_inv ?st1" by simp
  from bget_fast_inv(1) [OF inv1 f2] have inv2: "cache_inv ?st2" by simp
  from bget_fast_keeps [of p2 d bn ?st1 ?st2] f2
  have "lookup (bufs ?st1) (buckets ?st1 ! unat (BUFMAP_HASH d bn)) d bn = None"
    "bufs ?st2 = bufs ?st1" "buckets ?st2 = buckets ?st1"
    by simp_all
  then have miss: "lookup (bufs ?st2) (buckets ?st2 ! unat (BUFMAP_HASH d bn)) d bn = None"
    by simp
  from second_lookup_hits [OF inv2 miss r, of p2]
  show "buf_of (bget_slow p2 d bn (state_of (bget_slow p1 d bn ?st2))) = Some b \<and>
        holders (state_of (bget_slow p2 d bn (state_of (bget_slow p1 d bn ?st2)))) d bn = [b] \<and>
        refcnt (bufs (state_of (bget_slow p2 d bn (state_of (bget_slow p1 d bn ?st2)))) ! b) = 2"
    by simp
qed

theorem one_buffer_per_key_witness:
  "length (holders (run [Tick, Bread 7 1 5] (binit 2 0)) 1 5) \<le> 1 \<and>
   buf_of (bget_slow 8 1 1 (projl (bget_fast 9 1 1 (projl (bget_fast 8 1 1 (run [Tick, Bread 7 1 5] (binit 2 0))))))) = Some 0 \<and>
   buf_of (bget_slow 9 1 1 (state_of (bget_slow 8 1 1 (projl (bget_fast 9 1 1 (projl (bget_fast 8 1 1 (run [Tick, Bread 7 1 5] (binit 2 0))))))))) = Some 0 \<and>
   holders (state_of (bget_slow 9 1 1 (state_of (bget_slow 8 1 1 (projl (bget_fast 9 1 1 (projl (bget_fast 8 1 1 (run [Tick, Bread 7 1 5] (binit 2 0)))))))))) 1 1 = [0] \<and>
   refcnt (bufs (state_of (bget_slow 9 1 1 (state_of (bget_slow 8 1 1 (projl (bget_fast 9 1 1 (projl (bget_fast 8 1 1 (run [Tick, Bread 7 1 5] (binit 2 0)))))))))) ! 0) = 2"
proof -
  let ?ops = "[Tick, Bread 7 1 5]"
  let ?st = "run ?ops (binit 2 0)"
  have ops: "list_all (op_ok 2) ?ops" by simp
  have k: "((1, 5) :: uint \<times> uint) \<noteq> (0, 0)" by simp
  have f: "isl (bget_fast 8 1 1 ?st) \<and>
           isl (bget_fast 9 1 1 (projl (bget_fast 8 1 1 ?st))) \<and>
           buf_of (bget_slow 8 1 1 (projl (bget_fast 9 1 1 (projl (bget_fast 8 1 1 ?st))))) = Some 0"
    by code_simp
  from one_buffer_per_key [OF ops, of 0] k f show ?thesis by blast
qed

text \<open>
  The claim as worded fails in the fresh cache, where every buffer has the key \<open>(0, 0)\<close>;
  a lookup of \<open>(0, 0)\<close> hits the first of them.
\<close>

theorem fresh_buffers_share_key:
  "holders (run [] (binit 2 0)) 0 0 = [0, 1] \<and>
   length (holders (run [Tick, Bread 7 1 5] (binit 30 0)) 0 0) = 29 \<and>
   buf_of (bget 7 0 0 (binit 2 0)) = Some 1 \<and>
   returned (bget 7 0 0 (binit 2 0)) \<and>
   holders (state_of (bget 7 0 0 (binit 2 0))) 0 0 = [0, 1]"
  by code_simp

end
